theory Spec2Isabelle
  imports Complex_Main "HOL-Library.Sublist" "HOL-Library.List_Lexorder"
begin

section \<open>The document tree\<close>

text \<open>
  A DOM node is either a text node with its character data, or an element with its
  node name (upper case, as \<^verbatim>\<open>nodeName\<close> reports it for HTML elements), its attributes
  in order, and its children in order. Each character of a string stands for one UTF-16
  code unit, so \<^verbatim>\<open>length\<close> is JavaScript's \<^verbatim>\<open>.length\<close>.
\<close>

datatype node = Text string | Elem string "(string \<times> string) list" "node list"

type_synonym path = "nat list"

text \<open>
  A node reference is the path of child indexes that leads to the node from the top of
  the document; the empty path is the top node, whose \<^verbatim>\<open>parentNode\<close> is \<^verbatim>\<open>null\<close>.
\<close>

fun nodeAt :: "node \<Rightarrow> path \<Rightarrow> node option" where
  "nodeAt t [] = Some t"
| "nodeAt (Text s) (i # p) = None"
| "nodeAt (Elem tg atts ks) (i # p) = (if i < length ks then nodeAt (ks ! i) p else None)"

fun childNodes :: "node \<Rightarrow> node list" where
  "childNodes (Text s) = []"
| "childNodes (Elem tg atts ks) = ks"

definition firstChild :: "node \<Rightarrow> path \<Rightarrow> path option" where
  "firstChild doc n =
     (case nodeAt doc n of
        Some (Elem tg atts (k # ks)) \<Rightarrow> Some (n @ [0])
      | _ \<Rightarrow> None)"

definition nextSibling :: "node \<Rightarrow> path \<Rightarrow> path option" where
  "nextSibling doc n =
     (if n = [] then None
      else (case nodeAt doc (butlast n @ [Suc (last n)]) of
              Some k \<Rightarrow> Some (butlast n @ [Suc (last n)])
            | None \<Rightarrow> None))"

definition parentNode :: "path \<Rightarrow> path option" where
  "parentNode n = (if n = [] then None else Some (butlast n))"

text \<open>\<^verbatim>\<open>getAttribute?.(name)\<close>: \<^verbatim>\<open>undefined\<close> on a text node, \<^verbatim>\<open>null\<close> when the attribute is absent.\<close>

definition getAttribute :: "node \<Rightarrow> path \<Rightarrow> string \<Rightarrow> string option" where
  "getAttribute doc n name =
     (case nodeAt doc n of
        Some (Elem tg atts ks) \<Rightarrow> map_of atts name
      | _ \<Rightarrow> None)"

text \<open>All node references of a document, in document order.\<close>

fun paths :: "node \<Rightarrow> path list" and pathsL :: "nat \<Rightarrow> node list \<Rightarrow> path list" where
  "paths (Text s) = [[]]"
| "paths (Elem tg atts ks) = [] # pathsL 0 ks"
| "pathsL i [] = []"
| "pathsL i (k # ks) = map ((#) i) (paths k) @ pathsL (Suc i) ks"

section \<open>Tree walker (src/node-iterator.ts)\<close>

record NodeIterator =
  current :: "path option"
  previous :: "path option"
  nextNode :: "path option"
  root :: path

definition newNodeIterator :: "path \<Rightarrow> NodeIterator" where
  "newNodeIterator r = \<lparr>current = Some r, previous = Some r, nextNode = Some r, root = r\<rparr>"

text \<open>
  The loop \<^verbatim>\<open>while ((n !== this.root) && n)\<close> that \<^verbatim>\<open>getNext\<close> and \<^verbatim>\<open>replaceCurrent\<close>
  share: from \<open>n\<close> upwards, the first next sibling found, and nothing once the root or
  the top of the document is reached.
\<close>

function climb :: "node \<Rightarrow> path \<Rightarrow> path option \<Rightarrow> path option" where
  "climb doc r n =
     (case n of
        None \<Rightarrow> None
      | Some x \<Rightarrow>
          if x = r then None
          else (case nextSibling doc x of
                  Some s \<Rightarrow> Some s
                | None \<Rightarrow> climb doc r (parentNode x)))"
  by pat_completeness auto
termination
  by (relation "measure (\<lambda>(doc, r, n). case n of None \<Rightarrow> 0 | Some x \<Rightarrow> Suc (length x))")
     (auto simp: parentNode_def split: if_splits)

definition getNext :: "node \<Rightarrow> NodeIterator \<Rightarrow> path option \<times> NodeIterator" where
  "getNext doc it =
     (let n = nextNode it;
          it1 = it\<lparr>current := n, nextNode := None\<rparr>
      in case n of
           None \<Rightarrow> (None, it1)
         | Some c \<Rightarrow>
             (let child = firstChild doc c
              in if child \<noteq> None \<and> getAttribute doc c ''data-editable'' \<noteq> Some ''remove''
                 then (Some c, it1\<lparr>nextNode := child\<rparr>)
                 else (Some c, it1\<lparr>nextNode := climb doc (root it) (Some c)\<rparr>)))"

definition replaceCurrent :: "node \<Rightarrow> NodeIterator \<Rightarrow> path \<Rightarrow> NodeIterator" where
  "replaceCurrent doc it replacement =
     it\<lparr>current := Some replacement,
        nextNode := climb doc (root it) (Some replacement),
        previous := None\<rparr>"

text \<open>What is left of a walk: the number of nodes after \<open>nextNode\<close> in document order.\<close>

definition remaining :: "node \<Rightarrow> NodeIterator \<Rightarrow> nat" where
  "remaining doc it =
     (case nextNode it of
        None \<Rightarrow> 0
      | Some p \<Rightarrow> Suc (length (filter (\<lambda>q. p < q) (paths doc))))"

lemma pathsL_mem:
  "j < length ks \<Longrightarrow> p \<in> set (paths (ks ! j)) \<Longrightarrow> (i + j) # p \<in> set (pathsL i ks)"
proof (induction ks arbitrary: i j)
  case Nil
  then show ?case by simp
next
  case (Cons k ks)
  show ?case
  proof (cases j)
    case 0
    with Cons.prems show ?thesis by simp
  next
    case (Suc j')
    with Cons.prems have "(Suc i + j') # p \<in> set (pathsL (Suc i) ks)"
      by (intro Cons.IH) simp_all
    with Suc show ?thesis by simp
  qed
qed

lemma nodeAt_paths: "nodeAt doc q = Some x \<Longrightarrow> q \<in> set (paths doc)"
proof (induction q arbitrary: doc x)
  case Nil
  then show ?case by (cases doc) auto
next
  case (Cons i q)
  then obtain tg atts ks where doc: "doc = Elem tg atts ks" by (cases doc) simp_all
  with Cons.prems have i: "i < length ks" and sub: "nodeAt (ks ! i) q = Some x"
    by (simp_all split: if_splits)
  from Cons.IH [OF sub] have "q \<in> set (paths (ks ! i))" .
  with i have "(0 + i) # q \<in> set (pathsL 0 ks)" by (rule pathsL_mem)
  with doc show ?case by simp
qed

lemma nodeAt_append:
  "nodeAt doc (p @ q) = (case nodeAt doc p of None \<Rightarrow> None | Some x \<Rightarrow> nodeAt x q)"
proof (induction p arbitrary: doc)
  case Nil
  then show ?case by simp
next
  case (Cons i p)
  then show ?case by (cases doc) simp_all
qed

lemma nodeAt_snoc:
  "nodeAt doc (p @ [i]) =
     (case nodeAt doc p of
        Some (Elem tg atts ks) \<Rightarrow> if i < length ks then Some (ks ! i) else None
      | _ \<Rightarrow> None)"
  by (simp add: nodeAt_append split: option.splits node.splits)

lemma less_snoc: "(p :: path) < p @ [i]"
  by (induction p) simp_all

lemma less_sibling: "(u @ a # x :: path) < u @ [Suc a]"
  by (induction u) simp_all

lemma climb_Some:
  "climb doc r n = Some s \<Longrightarrow>
   \<exists>x p. n = Some p \<and> x \<noteq> [] \<and> prefix x p \<and> x \<noteq> r \<and> s = butlast x @ [Suc (last x)] \<and> nodeAt doc s \<noteq> None"
proof (induction doc r n rule: climb.induct)
  case (1 doc r n)
  from "1.prems" obtain p where n: "n = Some p" and pr: "p \<noteq> r"
    by (cases n) (auto split: if_splits)
  show ?case
  proof (cases "nextSibling doc p")
    case (Some s')
    with "1.prems" n pr have "s' = s" by simp
    with Some have "p \<noteq> []" "s = butlast p @ [Suc (last p)]" "nodeAt doc s \<noteq> None"
      by (auto simp: nextSibling_def split: if_splits option.splits)
    with n pr show ?thesis by blast
  next
    case None
    with "1.prems" n pr have up: "climb doc r (parentNode p) = Some s" by simp
    from "1.IH" [OF n pr None up] obtain x q where
      q: "parentNode p = Some q" and x: "x \<noteq> []" "prefix x q" "x \<noteq> r"
        "s = butlast x @ [Suc (last x)]" "nodeAt doc s \<noteq> None"
      by blast
    from q have "prefix q p"
      by (auto simp: parentNode_def prefix_def split: if_splits intro: append_butlast_last_id [symmetric])
    with x(2) have "prefix x p" by (rule prefix_order.trans)
    with n x show ?thesis by blast
  qed
qed

lemma climb_greater: "climb doc r (Some p) = Some s \<Longrightarrow> p < s \<and> s \<in> set (paths doc)"
proof -
  assume "climb doc r (Some p) = Some s"
  from climb_Some [OF this] obtain x where x: "x \<noteq> []" "prefix x p"
    "s = butlast x @ [Suc (last x)]" "nodeAt doc s \<noteq> None"
    by auto
  from x(2) obtain rest where "p = x @ rest" by (auto simp: prefix_def)
  with x(1) have "p = butlast x @ last x # rest" by simp
  then have "p < butlast x @ [Suc (last x)]" using less_sibling by metis
  moreover from x(4) have "s \<in> set (paths doc)" by (auto intro: nodeAt_paths)
  ultimately show ?thesis using x(3) by simp
qed

lemma getNext_progress:
  assumes "getNext doc it = (Some c, it')"
  shows "remaining doc it' < remaining doc it"
proof -
  from assms have nx: "nextNode it = Some c"
    by (auto simp: getNext_def Let_def split: option.splits if_splits)
  show ?thesis
  proof (cases "nextNode it'")
    case None
    with nx show ?thesis by (simp add: remaining_def)
  next
    case (Some s)
    have "c < s \<and> s \<in> set (paths doc)"
    proof (cases "firstChild doc c \<noteq> None \<and> getAttribute doc c ''data-editable'' \<noteq> Some ''remove''")
      case True
      with assms nx Some have s: "firstChild doc c = Some s"
        by (auto simp: getNext_def Let_def)
      then have "s = c @ [0]" "nodeAt doc c \<noteq> None"
        by (auto simp: firstChild_def split: option.splits node.splits list.splits)
      moreover from s have "nodeAt doc s \<noteq> None"
        by (auto simp: firstChild_def nodeAt_snoc split: option.splits node.splits list.splits)
      ultimately show ?thesis by (auto simp: less_snoc intro: nodeAt_paths)
    next
      case False
      with assms nx Some have "climb doc (root it) (Some c) = Some s"
        by (auto simp: getNext_def Let_def split: if_splits)
      then show ?thesis by (rule climb_greater)
    qed
    then have lt: "c < s" and mem: "s \<in> set (paths doc)" by simp_all
    have "filter (\<lambda>q. s < q) (paths doc) = filter (\<lambda>q. s < q) (filter (\<lambda>q. c < q) (paths doc))"
      using lt by (auto intro!: filter_cong)
    moreover have "length (filter (\<lambda>q. s < q) (filter (\<lambda>q. c < q) (paths doc)))
        < length (filter (\<lambda>q. c < q) (paths doc))"
      using lt mem by (intro length_filter_less [of s]) auto
    ultimately show ?thesis using nx Some by (simp add: remaining_def)
  qed
qed

section \<open>Text linearizer (getText and extractText of src/highlight-text.ts)\<close>

text \<open>What \<^verbatim>\<open>getText\<close> hands to its callback for one visited node.\<close>

definition textPart :: "node \<Rightarrow> bool \<Rightarrow> path \<Rightarrow> string" where
  "textPart doc convertBRs n =
     (case nodeAt doc n of
        Some (Text d) \<Rightarrow> if d \<noteq> [] then d else []
      | Some (Elem tg atts ks) \<Rightarrow> if convertBRs \<and> tg = ''BR'' then [CHR 0x0A] else []
      | None \<Rightarrow> [])"

function getText_loop :: "node \<Rightarrow> NodeIterator \<Rightarrow> bool \<Rightarrow> string \<Rightarrow> string" where
  "getText_loop doc it convertBRs out =
     (case getNext doc it of
        (None, it') \<Rightarrow> out
      | (Some n, it') \<Rightarrow> getText_loop doc it' convertBRs (out @ textPart doc convertBRs n))"
  by pat_completeness auto
termination
  by (relation "measure (\<lambda>(doc, it, c, t). remaining doc it)") (auto intro: getNext_progress [OF sym])

definition extractText :: "node \<Rightarrow> path \<Rightarrow> bool \<Rightarrow> string" where
  "extractText doc element convertBRs = getText_loop doc (newNodeIterator element) convertBRs []"

text \<open>The nodes an iterator yields until \<^verbatim>\<open>getNext\<close> returns \<^verbatim>\<open>undefined\<close>.\<close>

function iterateNodes :: "node \<Rightarrow> NodeIterator \<Rightarrow> path list" where
  "iterateNodes doc it =
     (case getNext doc it of
        (None, it') \<Rightarrow> []
      | (Some n, it') \<Rightarrow> n # iterateNodes doc it')"
  by pat_completeness auto
termination
  by (relation "measure (\<lambda>(doc, it). remaining doc it)") (auto intro: getNext_progress [OF sym])


fun preorder :: "node \<Rightarrow> path list" and preorderL :: "nat \<Rightarrow> node list \<Rightarrow> path list" where
  "preorder (Text d) = [[]]"
| "preorder (Elem tg atts ks) =
     [] # (if map_of atts ''data-editable'' = Some ''remove'' then [] else preorderL 0 ks)"
| "preorderL i [] = []"
| "preorderL i (k # ks) = map ((#) i) (preorder k) @ preorderL (Suc i) ks"

declare getText_loop.simps [simp del] iterateNodes.simps [simp del] climb.simps [simp del]


lemma iterateNodes_cong:
  "nextNode it = nextNode it2 \<Longrightarrow> root it = root it2 \<Longrightarrow> iterateNodes doc it = iterateNodes doc it2"
proof -
  assume a: "nextNode it = nextNode it2" "root it = root it2"
  have "fst (getNext doc it) = fst (getNext doc it2)"
    "nextNode (snd (getNext doc it)) = nextNode (snd (getNext doc it2))"
    "root (snd (getNext doc it)) = root (snd (getNext doc it2))"
    using a by (auto simp: getNext_def Let_def split: option.splits)
  show ?thesis using a
  proof (induction doc it arbitrary: it2 rule: iterateNodes.induct)
    case (1 doc it)
    obtain n it' where g: "getNext doc it = (n, it')" by (cases "getNext doc it")
    obtain n2 it2' where g2: "getNext doc it2 = (n2, it2')" by (cases "getNext doc it2")
    from 1(2,3) g g2 have e: "n2 = n" "nextNode it' = nextNode it2'" "root it' = root it2'"
      by (auto simp: getNext_def Let_def split: option.splits if_splits)
    show ?case
    proof (cases n)
      case None
      with g g2 e show ?thesis
        by (simp add: iterateNodes.simps [of doc it] iterateNodes.simps [of doc it2])
    next
      case (Some c)
      with g g2 e "1.IH" [of "Some c" it' c it2'] show ?thesis
        by (simp add: iterateNodes.simps [of doc it] iterateNodes.simps [of doc it2])
    qed
  qed
qed

definition walkFrom :: "node \<Rightarrow> path \<Rightarrow> path option \<Rightarrow> path list" where
  "walkFrom doc r n = iterateNodes doc \<lparr>current = None, previous = None, nextNode = n, root = r\<rparr>"

lemma iterateNodes_walkFrom: "iterateNodes doc it = walkFrom doc (root it) (nextNode it)"
  unfolding walkFrom_def by (rule iterateNodes_cong) simp_all

lemma walkFrom_None: "walkFrom doc r None = []"
  by (simp add: walkFrom_def iterateNodes.simps getNext_def)

lemma walkFrom_Some:
  "walkFrom doc r (Some p) =
     p # walkFrom doc r
           (if firstChild doc p \<noteq> None \<and> getAttribute doc p ''data-editable'' \<noteq> Some ''remove''
            then firstChild doc p else climb doc r (Some p))"
proof -
  let ?it = "\<lparr>current = None, previous = None, nextNode = Some p, root = r\<rparr>"
  obtain it' where g: "getNext doc ?it = (Some p, it')"
    by (cases "getNext doc ?it") (auto simp: getNext_def Let_def split: if_splits)
  then have "root it' = r"
    "nextNode it' = (if firstChild doc p \<noteq> None \<and> getAttribute doc p ''data-editable'' \<noteq> Some ''remove''
            then firstChild doc p else climb doc r (Some p))"
    by (auto simp: getNext_def Let_def split: if_splits)
  with g show ?thesis
    by (simp add: walkFrom_def iterateNodes.simps [of doc ?it] iterateNodes_walkFrom [of doc it'])
qed

lemma climb_child:
  assumes "prefix r p" and "nodeAt doc p = Some (Elem tg atts ks)" and "i < length ks"
  shows "climb doc r (Some (p @ [i])) =
           (if Suc i < length ks then Some (p @ [Suc i]) else climb doc r (Some p))"
proof -
  from assms(1) have ne: "p @ [i] \<noteq> r" by (auto simp: prefix_def)
  have sib: "nextSibling doc (p @ [i]) = (if Suc i < length ks then Some (p @ [Suc i]) else None)"
    using assms(2) by (simp add: nextSibling_def nodeAt_snoc)
  have par: "parentNode (p @ [i]) = Some p" by (simp add: parentNode_def)
  show ?thesis using ne sib par by (simp add: climb.simps [of doc r "Some (p @ [i])"])
qed

lemma walk_subtree:
  "nodeAt doc p = Some x \<Longrightarrow> prefix r p \<Longrightarrow>
   walkFrom doc r (Some p) = map ((@) p) (preorder x) @ walkFrom doc r (climb doc r (Some p))"
proof (induction x arbitrary: p)
  case (Text d)
  then show ?case by (simp add: walkFrom_Some firstChild_def)
next
  case (Elem tg atts ks)
  have kids: "walkFrom doc r (if i < length ks then Some (p @ [i]) else climb doc r (Some p))
      = map ((@) p) (preorderL i (drop i ks)) @ walkFrom doc r (climb doc r (Some p))"
    if "i \<le> length ks" for i
    using that
  proof (induction "length ks - i" arbitrary: i)
    case 0
    then show ?case by simp
  next
    case (Suc n)
    then have i: "i < length ks" by simp
    then have mem: "ks ! i \<in> set ks" by simp
    have at: "nodeAt doc (p @ [i]) = Some (ks ! i)"
      using Elem.prems(1) i by (simp add: nodeAt_snoc)
    have pre: "prefix r (p @ [i])" using Elem.prems(2) by (simp add: prefix_def) (metis append.assoc)
    have step: "walkFrom doc r (Some (p @ [i])) =
        map ((@) (p @ [i])) (preorder (ks ! i)) @ walkFrom doc r (climb doc r (Some (p @ [i])))"
      by (rule Elem.IH [OF mem at pre])
    have cl: "climb doc r (Some (p @ [i])) =
        (if Suc i < length ks then Some (p @ [Suc i]) else climb doc r (Some p))"
      by (rule climb_child [OF Elem.prems(2) Elem.prems(1) i])
    have rest: "walkFrom doc r (if Suc i < length ks then Some (p @ [Suc i]) else climb doc r (Some p))
      = map ((@) p) (preorderL (Suc i) (drop (Suc i) ks)) @ walkFrom doc r (climb doc r (Some p))"
      using Suc.hyps(2) i by (intro Suc.hyps(1)) simp_all
    have dr: "drop i ks = ks ! i # drop (Suc i) ks" using i by (simp add: Cons_nth_drop_Suc)
    show ?case using i step cl rest by (simp add: dr)
  qed
  show ?case
  proof (cases "ks \<noteq> [] \<and> map_of atts ''data-editable'' \<noteq> Some ''remove''")
    case True
    then have fc: "firstChild doc p = Some (p @ [0])"
      using Elem.prems(1) by (cases ks) (simp_all add: firstChild_def)
    from True have "0 < length ks" by simp
    with kids [of 0] True fc Elem.prems(1) show ?thesis
      by (simp add: walkFrom_Some getAttribute_def)
  next
    case False
    then show ?thesis using Elem.prems(1)
      by (cases ks) (auto simp: walkFrom_Some firstChild_def getAttribute_def)
  qed
qed

lemma iterateNodes_preorder:
  assumes "nodeAt doc r = Some x"
  shows "iterateNodes doc (newNodeIterator r) = map ((@) r) (preorder x)"
proof -
  have "walkFrom doc r (Some r) = map ((@) r) (preorder x) @ walkFrom doc r (climb doc r (Some r))"
    using assms by (intro walk_subtree) simp_all
  then show ?thesis
    by (simp add: iterateNodes_walkFrom newNodeIterator_def climb.simps [of doc r "Some r"] walkFrom_None)
qed








subsection \<open>Continuing a walk after \<^verbatim>\<open>replaceCurrent\<close>\<close>

text \<open>The node that the \<open>(k+1)\<close>-th call of \<^verbatim>\<open>getNext\<close> returns, counted from the state \<open>it\<close>.\<close>

definition visitedAfter :: "node \<Rightarrow> NodeIterator \<Rightarrow> nat \<Rightarrow> path option" where
  "visitedAfter doc it k = fst (getNext doc (((\<lambda>s. snd (getNext doc s)) ^^ k) it))"

text \<open>The ancestors of a node, nearest first.\<close>

fun ancestors :: "path \<Rightarrow> path list" where
  "ancestors [] = []"
| "ancestors (i # p) = butlast (i # p) # ancestors (butlast (i # p))"

text \<open>
  The words of C10: the walk resumes at the next sibling of \<open>r\<close> if it has one,
  otherwise at the next sibling of the nearest ancestor of \<open>r\<close> inside the root that has
  one, and otherwise it ends.
\<close>

definition claimedResume :: "node \<Rightarrow> path \<Rightarrow> path \<Rightarrow> path option" where
  "claimedResume doc rt r =
     (case List.find (\<lambda>a. nextSibling doc a \<noteq> None) (r # filter (strict_prefix rt) (ancestors r)) of
        Some a \<Rightarrow> nextSibling doc a
      | None \<Rightarrow> None)"

lemma ancestors_nonempty: "x \<noteq> [] \<Longrightarrow> ancestors x = butlast x # ancestors (butlast x)"
  by (cases x) simp_all

lemma ancestors_strict_prefix: "a \<in> set (ancestors p) \<Longrightarrow> strict_prefix a p"
proof (induction p arbitrary: a rule: length_induct)
  case (1 p)
  show ?case
  proof (cases "p = []")
    case True
    with "1.prems" show ?thesis by simp
  next
    case False
    then have bp: "strict_prefix (butlast p) p"
      by (metis append_butlast_last_id not_Cons_self2 prefixI self_append_conv strict_prefix_def)
    from False "1.prems" consider "a = butlast p" | "a \<in> set (ancestors (butlast p))"
      by (auto simp: ancestors_nonempty)
    then show ?thesis
    proof cases
      case 1
      with bp show ?thesis by simp
    next
      case 2
      from False have "length (butlast p) < length p" by simp
      with "1.IH" 2 have "strict_prefix a (butlast p)" by blast
      then show ?thesis using bp by (rule prefix_order.less_trans)
    qed
  qed
qed

lemma climb_claimedResume:
  "strict_prefix rt x \<Longrightarrow> climb doc rt (Some x) = claimedResume doc rt x"
proof (induction x rule: length_induct)
  case (1 x)
  from "1.prems" have ne: "x \<noteq> []" "x \<noteq> rt" by auto
  show ?case
  proof (cases "nextSibling doc x")
    case (Some s)
    with ne show ?thesis by (simp add: climb.simps [of doc rt "Some x"] claimedResume_def)
  next
    case None
    have up: "climb doc rt (Some x) = climb doc rt (Some (butlast x))"
      using None ne by (simp add: climb.simps [of doc rt "Some x"] parentNode_def)
    show ?thesis
    proof (cases "butlast x = rt")
      case True
      have "filter (strict_prefix rt) (ancestors rt) = []"
        by (auto simp: filter_empty_conv dest!: ancestors_strict_prefix)
      with True None ne up show ?thesis
        by (simp add: claimedResume_def ancestors_nonempty climb.simps [of doc rt "Some rt"])
    next
      case False
      from "1.prems" obtain ys where x: "x = rt @ ys" "ys \<noteq> []" by (auto simp: strict_prefix_def prefix_def)
      then have "butlast x = rt @ butlast ys" by (simp add: butlast_append)
      with False have sp: "strict_prefix rt (butlast x)" by (auto simp: strict_prefix_def)
      from ne have "length (butlast x) < length x" by simp
      with "1.IH" sp have "climb doc rt (Some (butlast x)) = claimedResume doc rt (butlast x)" by blast
      with up None sp ne show ?thesis by (simp add: claimedResume_def ancestors_nonempty [of x])
    qed
  qed
qed

lemma getNext_step:
  assumes "getNext doc it = (c, it')"
  shows "c = nextNode it" and "root it' = root it"
    and "nextNode it = Some p \<Longrightarrow> nextNode it' = Some s \<Longrightarrow>
         s = p @ [0] \<or> climb doc (root it) (Some p) = Some s"
  using assms
  by (auto simp: getNext_def Let_def firstChild_def
      split: option.splits if_splits node.splits list.splits)

lemma getNext_end: "nextNode it = None \<Longrightarrow> nextNode (snd (getNext doc it)) = None"
  by (simp add: getNext_def)

lemma beyond_step:
  assumes "(r :: path) < p" and "\<not> prefix r p"
    and "s = p @ [0] \<or> climb doc rt (Some p) = Some s"
  shows "r < s \<and> \<not> prefix r s"
proof -
  from assms(3) have ps: "p < s"
    by (auto simp: less_snoc dest: climb_greater)
  with assms(1) have rs: "r < s" by simp
  have "\<not> prefix r s"
  proof
    assume pr: "prefix r s"
    from assms(3) show False
    proof
      assume "s = p @ [0]"
      with pr have "prefix r p \<or> r = p @ [0]" by (auto simp: prefix_snoc)
      with assms(2) have "r = p @ [0]" by simp
      with assms(1) less_snoc [of p 0] show False by simp
    next
      assume "climb doc rt (Some p) = Some s"
      from climb_Some [OF this] obtain x where x: "x \<noteq> []" "prefix x p"
        "s = butlast x @ [Suc (last x)]" by auto
      from pr x(3) have "prefix r (butlast x) \<or> r = s" by (auto simp: prefix_snoc)
      then show False
      proof
        assume "prefix r (butlast x)"
        then have "prefix r x" by (metis prefix_order.trans prefixeq_butlast)
        then have "prefix r p" using x(2) by (rule prefix_order.trans)
        with assms(2) show False ..
      next
        assume "r = s"
        with rs show False by simp
      qed
    qed
  qed
  with rs show ?thesis ..
qed

lemma replaceCurrent_beyond:
  assumes "nextNode (replaceCurrent doc it r) = Some s"
  shows "r < s \<and> \<not> prefix r s"
proof -
  from assms have c: "climb doc (root it) (Some r) = Some s" by (simp add: replaceCurrent_def)
  from climb_greater [OF c] have rs: "r < s" by simp
  from climb_Some [OF c] obtain x where x: "x \<noteq> []" "prefix x r" "s = butlast x @ [Suc (last x)]"
    by auto
  have "\<not> prefix r s"
  proof
    assume pr: "prefix r s"
    from x(2) have "length x \<le> length r" by (rule prefix_length_le)
    moreover from x(1,3) have "length s = length x" by simp
    ultimately have "length s \<le> length r" by simp
    with pr have "r = s" by (metis prefix_length_le le_antisym prefix_order.eq_iff append_eq_append_conv prefix_def append_Nil2)
    with rs show False by simp
  qed
  with rs show ?thesis ..
qed

lemma walk_stays_beyond:
  assumes "case nextNode it of None \<Rightarrow> True | Some p \<Rightarrow> r < p \<and> \<not> prefix r p"
  shows "case nextNode (((\<lambda>s. snd (getNext doc s)) ^^ k) it) of
           None \<Rightarrow> True | Some p \<Rightarrow> r < p \<and> \<not> prefix r p"
proof (induction k)
  case 0
  with assms show ?case by simp
next
  case (Suc k)
  let ?st = "((\<lambda>s. snd (getNext doc s)) ^^ k) it"
  obtain c it' where g: "getNext doc ?st = (c, it')" by (cases "getNext doc ?st")
  show ?case
  proof (cases "nextNode it'")
    case None
    with g show ?thesis by simp
  next
    case (Some s)
    show ?thesis
    proof (cases "nextNode ?st")
      case None
      from getNext_end [OF this, of doc] g Some show ?thesis by simp
    next
      case (Some p) note p = this
      with Suc.IH have "r < p" "\<not> prefix r p" by simp_all
      from beyond_step [OF this getNext_step(3) [OF g p \<open>nextNode it' = Some s\<close>]] g \<open>nextNode it' = Some s\<close>
      show ?thesis by simp
    qed
  qed
qed

lemma walk_ended:
  "nextNode it = None \<Longrightarrow> nextNode (((\<lambda>s. snd (getNext doc s)) ^^ k) it) = None"
  by (induction k) (simp_all add: getNext_end)

text \<open>
  C10, as stated, fails when \<open>r\<close> is the root of the walk: the loop of
  \<^verbatim>\<open>replaceCurrent\<close> is guarded by \<^verbatim>\<open>n !== this.root\<close>, so the walk ends even
  though the root has a next sibling. In \<^verbatim>\<open><div><p>a</p>b</div>\<close>, walking the \<^verbatim>\<open>p\<close>
  element and replacing it by itself leaves no next node, where the claim resumes at
  the text node \<open>b\<close>.
\<close>

theorem replaceCurrent_root_counterexample:
  "nextSibling (Elem ''DIV'' [] [Elem ''P'' [] [Text ''a''], Text ''b'']) [0] = Some [1]
   \<and> claimedResume (Elem ''DIV'' [] [Elem ''P'' [] [Text ''a''], Text ''b'']) [0] [0] = Some [1]
   \<and> nextNode (replaceCurrent (Elem ''DIV'' [] [Elem ''P'' [] [Text ''a''], Text ''b''])
        (snd (getNext (Elem ''DIV'' [] [Elem ''P'' [] [Text ''a''], Text ''b'']) (newNodeIterator [0])))
        [0]) = None"
  by (simp add: replaceCurrent_def claimedResume_def nextSibling_def newNodeIterator_def
      getNext_def firstChild_def getAttribute_def climb.simps Let_def)

text \<open>
  C10, amended: after \<^verbatim>\<open>replaceCurrent(r)\<close>, no later call of \<^verbatim>\<open>getNext\<close> returns
  \<open>r\<close> or a descendant of \<open>r\<close>, and once the next node is undefined every later
  call returns \<^verbatim>\<open>undefined\<close>. When \<open>r\<close> is a proper descendant of the root, the walk
  resumes at the next sibling of \<open>r\<close> if it has one, otherwise at the next sibling of the
  nearest ancestor of \<open>r\<close> inside the root that has one, and otherwise it ends.
\<close>

theorem replaceCurrent_resumes:
  "(\<forall>k q. visitedAfter doc (replaceCurrent doc it r) k = Some q \<longrightarrow> \<not> prefix r q)
   \<and> (nextNode (replaceCurrent doc it r) = None \<longrightarrow>
        (\<forall>k. visitedAfter doc (replaceCurrent doc it r) k = None))
   \<and> (strict_prefix (root it) r \<longrightarrow>
        nextNode (replaceCurrent doc it r) = claimedResume doc (root it) r)"
proof (intro conjI allI impI)
  fix k q
  assume v: "visitedAfter doc (replaceCurrent doc it r) k = Some q"
  let ?it = "replaceCurrent doc it r"
  have "case nextNode ?it of None \<Rightarrow> True | Some p \<Rightarrow> r < p \<and> \<not> prefix r p"
    using replaceCurrent_beyond [of doc it r] by (cases "nextNode ?it") simp_all
  from walk_stays_beyond [OF this, where doc = doc and k = k]
  have inv: "case nextNode (((\<lambda>s. snd (getNext doc s)) ^^ k) ?it) of
      None \<Rightarrow> True | Some p \<Rightarrow> r < p \<and> \<not> prefix r p" .
  obtain c it' where g: "getNext doc (((\<lambda>s. snd (getNext doc s)) ^^ k) ?it) = (c, it')"
    by (cases "getNext doc (((\<lambda>s. snd (getNext doc s)) ^^ k) ?it)")
  from getNext_step(1) [OF g] v g have "nextNode (((\<lambda>s. snd (getNext doc s)) ^^ k) ?it) = Some q"
    by (simp add: visitedAfter_def)
  with inv show "\<not> prefix r q" by simp
next
  fix k
  assume n: "nextNode (replaceCurrent doc it r) = None"
  let ?st = "((\<lambda>s. snd (getNext doc s)) ^^ k) (replaceCurrent doc it r)"
  obtain c it' where g: "getNext doc ?st = (c, it')" by (cases "getNext doc ?st")
  from getNext_step(1) [OF g] walk_ended [OF n, where doc = doc and k = k] g
  show "visitedAfter doc (replaceCurrent doc it r) k = None"
    by (simp add: visitedAfter_def)
next
  assume "strict_prefix (root it) r"
  then show "nextNode (replaceCurrent doc it r) = claimedResume doc (root it) r"
    by (simp add: replaceCurrent_def climb_claimedResume)
qed

theorem replaceCurrent_resumes_witness:
  "strict_prefix (root (newNodeIterator [])) [0, 1]
   \<and> nextNode (replaceCurrent (Elem ''DIV'' [] [Elem ''B'' [] [Text ''a'', Text ''b''], Text ''c''])
        (newNodeIterator []) [0, 1]) = Some [1]
   \<and> \<not> prefix [0, 1] [1 :: nat]"
  using replaceCurrent_resumes
    [of "Elem ''DIV'' [] [Elem ''B'' [] [Text ''a'', Text ''b''], Text ''c'']" "newNodeIterator []" "[0, 1]"]
  by (simp add: claimedResume_def nextSibling_def newNodeIterator_def)

section \<open>Text nodes of an element (src/util/element.ts)\<close>

function getNextTextNode :: "node \<Rightarrow> NodeIterator \<Rightarrow> path option \<times> NodeIterator" where
  "getNextTextNode doc it =
     (case getNext doc it of
        (None, it') \<Rightarrow> (None, it')
      | (Some n, it') \<Rightarrow>
          (case nodeAt doc n of
             Some (Text d) \<Rightarrow> if d \<noteq> [] then (Some n, it') else getNextTextNode doc it'
           | _ \<Rightarrow> getNextTextNode doc it'))"
  by pat_completeness auto
termination
  by (relation "measure (\<lambda>(doc, it). remaining doc it)") (auto intro: getNext_progress [OF sym])

declare getNextTextNode.simps [simp del]

lemma getNextTextNode_progress:
  "getNextTextNode doc it = (Some n, it') \<Longrightarrow> remaining doc it' < remaining doc it"
proof (induction doc it rule: getNextTextNode.induct)
  case (1 doc it)
  obtain c it1 where g: "getNext doc it = (c, it1)" by (cases "getNext doc it")
  show ?case
  proof (cases c)
    case None
    with g "1.prems" show ?thesis by (simp add: getNextTextNode.simps [of doc it])
  next
    case (Some m)
    with g have lt: "remaining doc it1 < remaining doc it" by (auto intro: getNext_progress)
    show ?thesis
    proof (cases "\<exists>d. nodeAt doc m = Some (Text d) \<and> d \<noteq> []")
      case True
      with g Some "1.prems" lt show ?thesis
        by (auto simp: getNextTextNode.simps [of doc it])
    next
      case False
      with g Some "1.prems" have rec: "getNextTextNode doc it1 = (Some n, it')"
        by (auto simp: getNextTextNode.simps [of doc it] split: option.splits node.splits if_splits)
      have "remaining doc it' < remaining doc it1"
      proof (cases "nodeAt doc m")
        case None
        from "1.IH"(1) [OF g [symmetric] Some None rec] show ?thesis .
      next
        case (Some y) note y = this
        show ?thesis
        proof (cases y)
          case (Text d)
          with False y have "\<not> d \<noteq> []" by simp
          from "1.IH"(2) [OF g [symmetric] \<open>c = Some m\<close> y Text this rec] show ?thesis .
        next
          case (Elem tg atts ks)
          from "1.IH"(3) [OF g [symmetric] \<open>c = Some m\<close> y Elem rec] show ?thesis .
        qed
      qed
      with lt show ?thesis by simp
    qed
  qed
qed

text \<open>\<^verbatim>\<open>[...iterator]\<close> for an iterator built with the method \<^verbatim>\<open>getNextTextNode\<close>.\<close>

function textNodes_loop :: "node \<Rightarrow> NodeIterator \<Rightarrow> path list" where
  "textNodes_loop doc it =
     (case getNextTextNode doc it of
        (None, it') \<Rightarrow> []
      | (Some n, it') \<Rightarrow> n # textNodes_loop doc it')"
  by pat_completeness auto
termination
  by (relation "measure (\<lambda>(doc, it). remaining doc it)") (auto intro: getNextTextNode_progress [OF sym])

declare textNodes_loop.simps [simp del]

definition textNodesUnder :: "node \<Rightarrow> path \<Rightarrow> path list" where
  "textNodesUnder doc n = textNodes_loop doc (newNodeIterator n)"

fun textContent :: "node \<Rightarrow> string" where
  "textContent (Text d) = d"
| "textContent (Elem tg atts ks) = concat (map textContent ks)"

text \<open>\<^verbatim>\<open>node.textContent?.length || 0\<close>\<close>

definition textLength :: "node \<Rightarrow> path \<Rightarrow> nat" where
  "textLength doc n = (case nodeAt doc n of Some x \<Rightarrow> length (textContent x) | None \<Rightarrow> 0)"

fun getTextNode_loop :: "node \<Rightarrow> path list \<Rightarrow> nat \<Rightarrow> nat \<Rightarrow> path option \<times> nat" where
  "getTextNode_loop doc [] absOffset cumulativeOffset = (None, 0)"
| "getTextNode_loop doc (n # rest) absOffset cumulativeOffset =
     (let nodeLength = textLength doc n
      in if absOffset \<le> cumulativeOffset + nodeLength
         then (Some n, absOffset - cumulativeOffset)
         else getTextNode_loop doc rest absOffset (cumulativeOffset + nodeLength))"

definition getTextNodeAndRelativeOffset :: "node \<Rightarrow> path list \<Rightarrow> nat \<Rightarrow> path option \<times> nat" where
  "getTextNodeAndRelativeOffset doc textNodes absOffset = getTextNode_loop doc textNodes absOffset 0"

definition getTotalCharCount :: "node \<Rightarrow> path \<Rightarrow> nat" where
  "getTotalCharCount doc element =
     foldl (\<lambda>acc n. acc + textLength doc n) 0 (textNodesUnder doc element)"

section \<open>Geometric cursor locator (src/util/binary_search.ts)\<close>

text \<open>
  The fields of a \<^verbatim>\<open>DOMRect\<close> that the search reads. Pixel coordinates and the target
  position are finite doubles, which are real numbers; comparing two of them is exact.
\<close>

record DOMRect =
  left :: real
  rect_top :: real
  bottom :: real

definition zeroRect :: DOMRect where
  "zeroRect = \<lparr>left = 0, rect_top = 0, bottom = 0\<rparr>"

text \<open>
  The value of \<^verbatim>\<open>Math.abs(a - b)\<close> for two finite doubles: the difference is rounded to
  a double, so it is a finite number or, when it overflows, \<^verbatim>\<open>Infinity\<close>. \<open>lessNumber\<close> is
  \<^verbatim>\<open><\<close> on such values.
\<close>

datatype number = Finite real | Infinity

fun lessNumber :: "number \<Rightarrow> number \<Rightarrow> bool" where
  "lessNumber (Finite a) (Finite b) = (a < b)"
| "lessNumber (Finite a) Infinity = True"
| "lessNumber Infinity b = False"

text \<open>
  The rendering engine, as far as the search sees it: the bounding box of the host's
  contents as a range (\<open>None\<close> when \<^verbatim>\<open>getBoundingClientRect\<close> throws, as under JSDOM),
  the bounding box of the host element (\<open>None\<close> when the call returns a falsy value),
  and the bounding box of a collapsed range at a boundary point of a text node. The
  answer to the last may change from one query to the next: it is a function of the
  number of range queries made before it. With the rendering comes the arithmetic of
  the platform: \<open>absDifference a b\<close> is what \<^verbatim>\<open>Math.abs(a - b)\<close> evaluates to. How the
  difference is rounded is not fixed here; what is proved of the search holds for
  every such function.
\<close>

record rendering =
  hostRangeRect :: "DOMRect option"
  hostElementRect :: "DOMRect option"
  rangeRect :: "nat \<Rightarrow> path \<times> nat \<Rightarrow> DOMRect option"
  absDifference :: "real \<Rightarrow> real \<Rightarrow> number"

record BinarySearchData =
  currentOffset :: nat
  leftLimit :: nat
  rightLimit :: nat

record BinaryCursorSearchResult =
  wasFound :: bool
  distance :: "number option"
  offset :: "nat option"

definition moveLeft :: "BinarySearchData \<Rightarrow> BinarySearchData" where
  "moveLeft data =
     data\<lparr>rightLimit := currentOffset data,
          currentOffset := (currentOffset data + leftLimit data) div 2\<rparr>"

text \<open>\<^verbatim>\<open>Math.ceil((a + b) / 2)\<close> on natural numbers is \<open>(a + b + 1) div 2\<close>.\<close>

definition moveRight :: "BinarySearchData \<Rightarrow> BinarySearchData" where
  "moveRight data =
     data\<lparr>leftLimit := currentOffset data,
          currentOffset := (currentOffset data + rightLimit data + 1) div 2\<rparr>"

text \<open>
  \<^verbatim>\<open>createRangeAtCharacterOffset\<close>: the collapsed range is its boundary point. The
  relative offset never exceeds the length of the node found, so \<^verbatim>\<open>setStart\<close> does not
  throw.
\<close>

definition createRangeAtCharacterOffset :: "node \<Rightarrow> path list \<Rightarrow> nat \<Rightarrow> string + (path \<times> nat)" where
  "createRangeAtCharacterOffset doc textNodes off =
     (case getTextNodeAndRelativeOffset doc textNodes off of
        (None, relativeOffset) \<Rightarrow> Inl ''Could not find text node for offset''
      | (Some n, relativeOffset) \<Rightarrow> Inr (n, relativeOffset))"

text \<open>
  The variables of the search loop. \<open>queries\<close> records each range query made so far, the
  offset probed with the bounding box that came back.
\<close>

record searchVars =
  data :: BinarySearchData
  offset_var :: nat
  distance_var :: number
  safety :: nat
  queries :: "(nat \<times> DOMRect) list"

text \<open>\<^verbatim>\<open>range.getBoundingClientRect()\<close> inside \<^verbatim>\<open>try\<close>, with the mock rectangle of the \<^verbatim>\<open>catch\<close>.\<close>

definition rangeCoords :: "rendering \<Rightarrow> nat \<Rightarrow> path \<times> nat \<Rightarrow> DOMRect" where
  "rangeCoords env k rng = (case rangeRect env k rng of Some r \<Rightarrow> r | None \<Rightarrow> zeroRect)"

text \<open>One pass through the body of the \<^verbatim>\<open>while\<close> loop.\<close>

definition search_body ::
  "rendering \<Rightarrow> node \<Rightarrow> path list \<Rightarrow> bool \<Rightarrow> bool \<Rightarrow> real \<Rightarrow> DOMRect \<Rightarrow> searchVars \<Rightarrow> string + searchVars" where
  "search_body env doc textNodes requiredOnFirstLine requiredOnLastLine positionX hostCoords v =
     (case createRangeAtCharacterOffset doc textNodes (currentOffset (data v)) of
        Inl e \<Rightarrow> Inl e
      | Inr rng \<Rightarrow>
          (let coords = rangeCoords env (length (queries v)) rng;
               v1 = v\<lparr>safety := safety v - 1,
                      offset_var := currentOffset (data v),
                      distance_var := absDifference env (left coords) positionX,
                      queries := queries v @ [(currentOffset (data v), coords)]\<rparr>
           in if requiredOnFirstLine \<and> rect_top hostCoords \<noteq> rect_top coords
              then Inr (v1\<lparr>data := moveLeft (data v)\<rparr>)
              else if requiredOnLastLine \<and> bottom hostCoords \<noteq> bottom coords
              then Inr (v1\<lparr>data := moveRight (data v)\<rparr>)
              else if positionX < left coords
              then Inr (v1\<lparr>data := moveLeft (data v)\<rparr>)
              else Inr (v1\<lparr>data := moveRight (data v)\<rparr>)))"

lemma search_body_safety:
  "search_body env doc tns f l x hc v = Inr v' \<Longrightarrow> safety v' = safety v - 1"
  by (auto simp: search_body_def Let_def split: sum.splits if_splits)

function search_loop ::
  "rendering \<Rightarrow> node \<Rightarrow> path list \<Rightarrow> bool \<Rightarrow> bool \<Rightarrow> real \<Rightarrow> DOMRect \<Rightarrow> searchVars \<Rightarrow> string + searchVars" where
  "search_loop env doc textNodes requiredOnFirstLine requiredOnLastLine positionX hostCoords v =
     (if leftLimit (data v) < rightLimit (data v) \<and> safety v > 0
      then (case search_body env doc textNodes requiredOnFirstLine requiredOnLastLine positionX hostCoords v of
              Inl e \<Rightarrow> Inl e
            | Inr v' \<Rightarrow>
                search_loop env doc textNodes requiredOnFirstLine requiredOnLastLine positionX hostCoords v')
      else Inr v)"
  by pat_completeness auto
termination
  by (relation "measure (\<lambda>(env, doc, tns, f, l, x, hc, v). safety v)")
     (auto dest: search_body_safety)

declare search_loop.simps [simp del]

text \<open>
  \<^verbatim>\<open>binaryCursorSearch\<close>, returning its result together with the record of the range
  queries it made.
\<close>

definition binaryCursorSearch_run ::
  "rendering \<Rightarrow> node \<Rightarrow> path \<Rightarrow> bool \<Rightarrow> bool \<Rightarrow> real
     \<Rightarrow> string + (BinaryCursorSearchResult \<times> (nat \<times> DOMRect) list)" where
  "binaryCursorSearch_run env doc host requiredOnFirstLine requiredOnLastLine positionX =
     (let hostCoords = (case hostRangeRect env of
                          Some r \<Rightarrow> r
                        | None \<Rightarrow> (case hostElementRect env of Some r \<Rightarrow> r | None \<Rightarrow> zeroRect));
          totalCharCount = getTotalCharCount doc host;
          textNodes = textNodesUnder doc host
      in if totalCharCount = 0
         then Inr (\<lparr>wasFound = False, distance = None, offset = None\<rparr>, [])
         else (case search_loop env doc textNodes requiredOnFirstLine requiredOnLastLine positionX hostCoords
                      \<lparr>data = \<lparr>currentOffset = totalCharCount div 2, leftLimit = 0,
                                rightLimit = totalCharCount\<rparr>,
                       offset_var = totalCharCount div 2, distance_var = Finite 0, safety = 20,
                       queries = []\<rparr> of
                 Inl e \<Rightarrow> Inl e
               | Inr v \<Rightarrow>
                   (case createRangeAtCharacterOffset doc textNodes (currentOffset (data v)) of
                      Inl e \<Rightarrow> Inl e
                    | Inr rng \<Rightarrow>
                        (let coords = rangeCoords env (length (queries v)) rng;
                             finalDistance = absDifference env (left coords) positionX;
                             asked = queries v @ [(currentOffset (data v), coords)]
                         in if lessNumber finalDistance (distance_var v)
                            then Inr (\<lparr>wasFound = True, distance = Some finalDistance,
                                        offset = Some (currentOffset (data v))\<rparr>, asked)
                            else Inr (\<lparr>wasFound = True, distance = Some (distance_var v),
                                        offset = Some (offset_var v)\<rparr>, asked)))))"

definition binaryCursorSearch ::
  "rendering \<Rightarrow> node \<Rightarrow> path \<Rightarrow> bool \<Rightarrow> bool \<Rightarrow> real \<Rightarrow> string + BinaryCursorSearchResult" where
  "binaryCursorSearch env doc host requiredOnFirstLine requiredOnLastLine positionX =
     map_sum id fst (binaryCursorSearch_run env doc host requiredOnFirstLine requiredOnLastLine positionX)"

subsection \<open>The search stays inside the text and stops\<close>

lemma foldl_add_sum_list:
  "foldl (\<lambda>acc n. acc + f n) a xs = a + sum_list (map f xs)" for a :: nat
  by (induction xs arbitrary: a) simp_all

lemma getTotalCharCount_sum:
  "getTotalCharCount doc host = sum_list (map (textLength doc) (textNodesUnder doc host))"
  by (simp add: getTotalCharCount_def foldl_add_sum_list)

lemma getTextNode_loop_finds:
  "tns \<noteq> [] \<Longrightarrow> off \<le> cum + sum_list (map (textLength doc) tns) \<Longrightarrow>
   \<exists>n rel. getTextNode_loop doc tns off cum = (Some n, rel)"
proof (induction tns arbitrary: cum)
  case Nil
  then show ?case by simp
next
  case (Cons t tns)
  show ?case
  proof (cases "off \<le> cum + textLength doc t")
    case True
    then show ?thesis by simp
  next
    case False
    with Cons.prems(2) have "tns \<noteq> []" by (cases tns) simp_all
    moreover from Cons.prems(2) have "off \<le> (cum + textLength doc t) + sum_list (map (textLength doc) tns)"
      by simp
    ultimately show ?thesis using False Cons.IH by simp
  qed
qed

lemma createRange_ok:
  "tns \<noteq> [] \<Longrightarrow> off \<le> sum_list (map (textLength doc) tns) \<Longrightarrow>
   \<exists>rng. createRangeAtCharacterOffset doc tns off = Inr rng"
  using getTextNode_loop_finds [of tns off 0 doc]
  by (auto simp: createRangeAtCharacterOffset_def getTextNodeAndRelativeOffset_def)

definition inRange :: "nat \<Rightarrow> searchVars \<Rightarrow> bool" where
  "inRange n v =
     (leftLimit (data v) \<le> currentOffset (data v) \<and> currentOffset (data v) \<le> rightLimit (data v)
      \<and> rightLimit (data v) \<le> n \<and> offset_var v \<le> n)"

lemma search_body_props:
  assumes "tns \<noteq> []" and "n = sum_list (map (textLength doc) tns)" and "inRange n v"
  shows "\<exists>v' c. search_body env doc tns f l x hc v = Inr v' \<and> inRange n v'
           \<and> safety v' = safety v - 1
           \<and> queries v' = queries v @ [(offset_var v', c)]
           \<and> distance_var v' = absDifference env (left c) x"
proof -
  from assms have "currentOffset (data v) \<le> sum_list (map (textLength doc) tns)"
    by (simp add: inRange_def)
  from createRange_ok [OF assms(1) this] obtain rng where
    r: "createRangeAtCharacterOffset doc tns (currentOffset (data v)) = Inr rng" ..
  have ml: "inRange n (w\<lparr>data := moveLeft (data v)\<rparr>)"
    if "offset_var w \<le> n" for w
    using assms(3) that by (simp add: inRange_def moveLeft_def) arith
  have mr: "inRange n (w\<lparr>data := moveRight (data v)\<rparr>)"
    if "offset_var w \<le> n" for w
    using assms(3) that by (simp add: inRange_def moveRight_def) arith
  have on: "currentOffset (data v) \<le> n" using assms(3) by (simp add: inRange_def)
  show ?thesis
    using r on by (auto simp: search_body_def Let_def intro!: ml mr)
qed

lemma search_loop_props:
  assumes "tns \<noteq> []" and "n = sum_list (map (textLength doc) tns)" and "inRange n v"
  shows "\<exists>v'. search_loop env doc tns f l x hc v = Inr v' \<and> inRange n v'
           \<and> length (queries v') \<le> length (queries v) + safety v
           \<and> (if leftLimit (data v) < rightLimit (data v) \<and> safety v > 0
               then \<exists>pre c. queries v' = pre @ [(offset_var v', c)] \<and> distance_var v' = absDifference env (left c) x
               else v' = v)"
  using assms
proof (induction env doc tns f l x hc v rule: search_loop.induct)
  case (1 env doc tns f l x hc v)
  show ?case
  proof (cases "leftLimit (data v) < rightLimit (data v) \<and> safety v > 0")
    case False
    then have "search_loop env doc tns f l x hc v = Inr v"
      by (subst search_loop.simps) auto
    with False "1.prems" show ?thesis by auto
  next
    case True
    from search_body_props [OF "1.prems", of env f l x hc] obtain v1 c where
      b: "search_body env doc tns f l x hc v = Inr v1" "inRange n v1" "safety v1 = safety v - 1"
        "queries v1 = queries v @ [(offset_var v1, c)]" "distance_var v1 = absDifference env (left c) x"
      by blast
    from "1.IH" [OF True b(1) "1.prems"(1,2) b(2)] obtain v' where
      r: "search_loop env doc tns f l x hc v1 = Inr v'" "inRange n v'"
        "length (queries v') \<le> length (queries v1) + safety v1"
        "if leftLimit (data v1) < rightLimit (data v1) \<and> safety v1 > 0
         then \<exists>pre c. queries v' = pre @ [(offset_var v', c)] \<and> distance_var v' = absDifference env (left c) x
         else v' = v1"
      by blast
    have "search_loop env doc tns f l x hc v = Inr v'"
      using True b(1) r(1) by (subst search_loop.simps) simp
    moreover have "length (queries v') \<le> length (queries v) + safety v"
      using r(3) b(3,4) True by simp
    moreover have "\<exists>pre c. queries v' = pre @ [(offset_var v', c)] \<and> distance_var v' = absDifference env (left c) x"
      using r(4) b(4,5) by (auto split: if_splits)
    ultimately show ?thesis using True r(2) by simp
  qed
qed

definition nonEmptyText :: "node \<Rightarrow> path \<Rightarrow> bool" where
  "nonEmptyText doc n = (case nodeAt doc n of Some (Text d) \<Rightarrow> d \<noteq> [] | _ \<Rightarrow> False)"

lemma getNextTextNode_filter:
  "getNextTextNode doc it = (r, it') \<Longrightarrow>
   filter (nonEmptyText doc) (iterateNodes doc it) =
     (case r of None \<Rightarrow> [] | Some n \<Rightarrow> n # filter (nonEmptyText doc) (iterateNodes doc it'))"
proof (induction doc it rule: getNextTextNode.induct)
  case (1 doc it)
  obtain c it1 where g: "getNext doc it = (c, it1)" by (cases "getNext doc it")
  show ?case
  proof (cases c)
    case None
    with g "1.prems" show ?thesis
      by (auto simp: getNextTextNode.simps [of doc it] iterateNodes.simps [of doc it])
  next
    case (Some m)
    show ?thesis
    proof (cases "nonEmptyText doc m")
      case True
      with g Some "1.prems" show ?thesis
        by (auto simp: getNextTextNode.simps [of doc it] iterateNodes.simps [of doc it]
            nonEmptyText_def split: option.splits node.splits)
    next
      case False
      with g Some "1.prems" have rec: "getNextTextNode doc it1 = (r, it')"
        by (auto simp: getNextTextNode.simps [of doc it] nonEmptyText_def
            split: option.splits node.splits if_splits)
      have "filter (nonEmptyText doc) (iterateNodes doc it1) =
          (case r of None \<Rightarrow> [] | Some n \<Rightarrow> n # filter (nonEmptyText doc) (iterateNodes doc it'))"
      proof (cases "nodeAt doc m")
        case None
        from "1.IH"(1) [OF g [symmetric] Some None rec] show ?thesis .
      next
        case (Some y) note y = this
        show ?thesis
        proof (cases y)
          case (Text d)
          with False y have "\<not> d \<noteq> []" by (simp add: nonEmptyText_def)
          from "1.IH"(2) [OF g [symmetric] \<open>c = Some m\<close> y Text this rec] show ?thesis .
        next
          case (Elem tg atts ks)
          from "1.IH"(3) [OF g [symmetric] \<open>c = Some m\<close> y Elem rec] show ?thesis .
        qed
      qed
      with g Some False show ?thesis by (simp add: iterateNodes.simps [of doc it])
    qed
  qed
qed

lemma textNodes_loop_filter:
  "textNodes_loop doc it = filter (nonEmptyText doc) (iterateNodes doc it)"
proof (induction doc it rule: textNodes_loop.induct)
  case (1 doc it)
  obtain r it' where g: "getNextTextNode doc it = (r, it')" by (cases "getNextTextNode doc it")
  show ?case
  proof (cases r)
    case None
    with g getNextTextNode_filter [OF g] show ?thesis
      by (simp add: textNodes_loop.simps [of doc it])
  next
    case (Some n)
    with g getNextTextNode_filter [OF g] "1.IH" [OF g [symmetric] Some] show ?thesis
      by (simp add: textNodes_loop.simps [of doc it])
  qed
qed

lemma textNodesUnder_preorder:
  "nodeAt doc host = Some sub \<Longrightarrow>
   textNodesUnder doc host = filter (nonEmptyText doc) (map ((@) host) (preorder sub))"
  by (simp add: textNodesUnder_def textNodes_loop_filter iterateNodes_preorder)

lemma run_found:
  assumes "1 \<le> getTotalCharCount doc host"
  shows "\<exists>pre o1 c1 o2 c2.
           binaryCursorSearch_run env doc host f l x =
             Inr (if lessNumber (absDifference env (left c2) x) (absDifference env (left c1) x)
                  then \<lparr>wasFound = True, distance = Some (absDifference env (left c2) x), offset = Some o2\<rparr>
                  else \<lparr>wasFound = True, distance = Some (absDifference env (left c1) x), offset = Some o1\<rparr>,
                  pre @ [(o1, c1), (o2, c2)])
           \<and> o1 \<le> getTotalCharCount doc host \<and> o2 \<le> getTotalCharCount doc host
           \<and> length pre < 20"
proof -
  let ?tns = "textNodesUnder doc host"
  let ?n = "getTotalCharCount doc host"
  let ?hc = "case hostRangeRect env of Some r \<Rightarrow> r
             | None \<Rightarrow> (case hostElementRect env of Some r \<Rightarrow> r | None \<Rightarrow> zeroRect)"
  let ?v0 = "\<lparr>data = \<lparr>currentOffset = ?n div 2, leftLimit = 0, rightLimit = ?n\<rparr>,
              offset_var = ?n div 2, distance_var = Finite 0, safety = 20, queries = []\<rparr>"
  have n: "?n = sum_list (map (textLength doc) ?tns)" by (rule getTotalCharCount_sum)
  with assms have ne: "?tns \<noteq> []" by auto
  have "inRange ?n ?v0" by (simp add: inRange_def)
  from search_loop_props [OF ne n this, of env f l x ?hc] assms obtain v pre c1 where
    v: "search_loop env doc ?tns f l x ?hc ?v0 = Inr v" "inRange ?n v"
      "length (queries v) \<le> 20" "queries v = pre @ [(offset_var v, c1)]"
      "distance_var v = absDifference env (left c1) x"
    by auto
  from v(2) have "currentOffset (data v) \<le> sum_list (map (textLength doc) ?tns)"
    using n by (simp add: inRange_def)
  from createRange_ok [OF ne this] obtain rng where
    r: "createRangeAtCharacterOffset doc ?tns (currentOffset (data v)) = Inr rng" ..
  let ?c2 = "rangeCoords env (length (queries v)) rng"
  have "binaryCursorSearch_run env doc host f l x =
      Inr (if lessNumber (absDifference env (left ?c2) x) (absDifference env (left c1) x)
           then \<lparr>wasFound = True, distance = Some (absDifference env (left ?c2) x), offset = Some (currentOffset (data v))\<rparr>
           else \<lparr>wasFound = True, distance = Some (absDifference env (left c1) x), offset = Some (offset_var v)\<rparr>,
           pre @ [(offset_var v, c1), (currentOffset (data v), ?c2)])"
    using assms v(1,4,5) r by (simp add: binaryCursorSearch_run_def Let_def)
  moreover have "offset_var v \<le> ?n" "currentOffset (data v) \<le> ?n" "length pre < 20"
    using v(2,3,4) by (simp_all add: inRange_def)
  ultimately show ?thesis by blast
qed

text \<open>
  The words of C8: the returned offset is one of the probed offsets whose left
  coordinate is nearest to the target among all probes of the search.
\<close>

definition claimedBest :: "real \<Rightarrow> (nat \<times> DOMRect) list \<Rightarrow> BinaryCursorSearchResult \<Rightarrow> bool" where
  "claimedBest positionX asked res =
     list_ex (\<lambda>(o1, c). offset res = Some o1 \<and>
                list_all (\<lambda>(o2, c'). \<bar>left c - positionX\<bar> \<le> \<bar>left c' - positionX\<bar>) asked) asked"

text \<open>
  A host \<^verbatim>\<open><div>abcd</div>\<close> rendered on two lines of height 20 with the first line
  indented by 10 pixels: the boundaries 0 and 1 stand on the first line at 10 and 20
  pixels, the boundaries 2, 3 and 4 on the second line at 0, 10 and 20 pixels. The
  differences of these small integers are exact in doubles.
\<close>

definition indented :: rendering where
  "indented =
     \<lparr>hostRangeRect = Some \<lparr>left = 0, rect_top = 0, bottom = 40\<rparr>,
      hostElementRect = Some \<lparr>left = 0, rect_top = 0, bottom = 40\<rparr>,
      rangeRect = (\<lambda>k (n, off).
         if off < 2 then Some \<lparr>left = 10 + 10 * real off, rect_top = 0, bottom = 20\<rparr>
         else Some \<lparr>left = 10 * (real off - 2), rect_top = 20, bottom = 40\<rparr>),
      absDifference = (\<lambda>a b. Finite \<bar>a - b\<bar>)\<rparr>"

lemma textNodesUnder_abcd: "textNodesUnder (Elem ''DIV'' [] [Text ''abcd'']) [] = [[0]]"
  by (simp add: textNodesUnder_preorder nonEmptyText_def)

lemma indented_run:
  "binaryCursorSearch_run indented (Elem ''DIV'' [] [Text ''abcd'']) [] True False 0 =
     Inr (\<lparr>wasFound = True, distance = Some (Finite 10), offset = Some 0\<rparr>,
          [(2, \<lparr>left = 0, rect_top = 20, bottom = 40\<rparr>),
           (1, \<lparr>left = 20, rect_top = 0, bottom = 20\<rparr>),
           (0, \<lparr>left = 10, rect_top = 0, bottom = 20\<rparr>),
           (0, \<lparr>left = 10, rect_top = 0, bottom = 20\<rparr>)])"
  by (simp add: binaryCursorSearch_run_def getTotalCharCount_def textNodesUnder_abcd textLength_def
      search_loop.simps search_body_def createRangeAtCharacterOffset_def
      getTextNodeAndRelativeOffset_def rangeCoords_def indented_def moveLeft_def moveRight_def
      Let_def)

text \<open>
  C6. The search returns not-found exactly when \<^verbatim>\<open>getTotalCharCount(host)\<close> is zero; for
  a host with \<open>n \<ge> 1\<close> characters it returns, for every rendering, every choice of
  the two line requirements and every target \<open>x\<close>, a found result whose offset is at
  most \<open>n\<close>. In particular the error of \<^verbatim>\<open>createRangeAtCharacterOffset\<close> is never raised.
\<close>

theorem binaryCursorSearch_found_iff:
  "(getTotalCharCount doc host = 0 \<longrightarrow>
      binaryCursorSearch env doc host requiredOnFirstLine requiredOnLastLine positionX
        = Inr \<lparr>wasFound = False, distance = None, offset = None\<rparr>)
   \<and> (1 \<le> getTotalCharCount doc host \<longrightarrow>
        (\<exists>d off. binaryCursorSearch env doc host requiredOnFirstLine requiredOnLastLine positionX
                    = Inr \<lparr>wasFound = True, distance = Some d, offset = Some off\<rparr>
                 \<and> off \<le> getTotalCharCount doc host))"
proof (intro conjI impI)
  assume "getTotalCharCount doc host = 0"
  then show "binaryCursorSearch env doc host requiredOnFirstLine requiredOnLastLine positionX
        = Inr \<lparr>wasFound = False, distance = None, offset = None\<rparr>"
    by (simp add: binaryCursorSearch_def binaryCursorSearch_run_def)
next
  assume "1 \<le> getTotalCharCount doc host"
  from run_found [OF this, of env requiredOnFirstLine requiredOnLastLine positionX]
  obtain pre o1 c1 o2 c2 where
    r: "binaryCursorSearch_run env doc host requiredOnFirstLine requiredOnLastLine positionX =
             Inr (if lessNumber (absDifference env (left c2) positionX) (absDifference env (left c1) positionX)
                  then \<lparr>wasFound = True, distance = Some (absDifference env (left c2) positionX), offset = Some o2\<rparr>
                  else \<lparr>wasFound = True, distance = Some (absDifference env (left c1) positionX), offset = Some o1\<rparr>,
                  pre @ [(o1, c1), (o2, c2)])"
      and o: "o1 \<le> getTotalCharCount doc host" "o2 \<le> getTotalCharCount doc host"
    by blast
  show "\<exists>d off. binaryCursorSearch env doc host requiredOnFirstLine requiredOnLastLine positionX
                    = Inr \<lparr>wasFound = True, distance = Some d, offset = Some off\<rparr>
                 \<and> off \<le> getTotalCharCount doc host"
  proof (cases "lessNumber (absDifference env (left c2) positionX) (absDifference env (left c1) positionX)")
    case True
    with r o show ?thesis by (simp add: binaryCursorSearch_def)
  next
    case False
    with r o show ?thesis by (simp add: binaryCursorSearch_def)
  qed
qed

lemma getTotalCharCount_Foo: "getTotalCharCount (Elem ''DIV'' [] [Text ''Foo'']) [] = 3"
  by (simp add: getTotalCharCount_sum textNodesUnder_preorder nonEmptyText_def textLength_def)

theorem binaryCursorSearch_found_iff_witness:
  "getTotalCharCount (Elem ''DIV'' [] []) [] = 0
   \<and> binaryCursorSearch indented (Elem ''DIV'' [] []) [] False False 7
        = Inr \<lparr>wasFound = False, distance = None, offset = None\<rparr>
   \<and> getTotalCharCount (Elem ''DIV'' [] [Text ''Foo'']) [] = 3
   \<and> (\<exists>d off. binaryCursorSearch indented (Elem ''DIV'' [] [Text ''Foo'']) [] False False 1000
                 = Inr \<lparr>wasFound = True, distance = Some d, offset = Some off\<rparr>
               \<and> off \<le> 3)"
proof -
  have e: "getTotalCharCount (Elem ''DIV'' [] []) [] = 0"
    by (simp add: getTotalCharCount_sum textNodesUnder_preorder nonEmptyText_def)
  show ?thesis
    using binaryCursorSearch_found_iff [of "Elem ''DIV'' [] []" "[]" indented False False 7]
      binaryCursorSearch_found_iff [of "Elem ''DIV'' [] [Text ''Foo'']" "[]" indented False False 1000]
    by (simp add: e getTotalCharCount_Foo)
qed

text \<open>
  C7. Every call returns a result, and it makes at most 20 range queries inside the loop
  (one per iteration) before the single query after the loop, whatever boxes the
  rendering reports and however they change between queries.
\<close>

theorem binaryCursorSearch_bounded:
  "\<exists>res asked.
     binaryCursorSearch_run env doc host requiredOnFirstLine requiredOnLastLine positionX
       = Inr (res, asked)
     \<and> binaryCursorSearch env doc host requiredOnFirstLine requiredOnLastLine positionX = Inr res
     \<and> length (butlast asked) \<le> 20"
proof (cases "getTotalCharCount doc host = 0")
  case True
  then show ?thesis by (simp add: binaryCursorSearch_def binaryCursorSearch_run_def)
next
  case False
  then have "1 \<le> getTotalCharCount doc host" by simp
  from run_found [OF this, of env requiredOnFirstLine requiredOnLastLine positionX]
  obtain pre o1 c1 o2 c2 res where
    "binaryCursorSearch_run env doc host requiredOnFirstLine requiredOnLastLine positionX =
       Inr (res, pre @ [(o1, c1), (o2, c2)])" "length pre < 20"
    by blast
  then show ?thesis by (simp add: binaryCursorSearch_def butlast_append)
qed

text \<open>
  C8, as stated, fails: the loop overwrites \<^verbatim>\<open>offset\<close> and \<^verbatim>\<open>distance\<close> on every
  iteration, so an earlier, nearer probe is forgotten. On the indented two-line host,
  looking for \<open>x = 0\<close> on the first line probes the boundaries 2, 1, 0 and 0; boundary 2 is
  at distance 0 (on the second line), and the search returns boundary 0 at distance 10.
\<close>

theorem binaryCursorSearch_best_counterexample:
  "binaryCursorSearch_run indented (Elem ''DIV'' [] [Text ''abcd'']) [] True False 0 =
     Inr (\<lparr>wasFound = True, distance = Some (Finite 10), offset = Some 0\<rparr>,
          [(2, \<lparr>left = 0, rect_top = 20, bottom = 40\<rparr>),
           (1, \<lparr>left = 20, rect_top = 0, bottom = 20\<rparr>),
           (0, \<lparr>left = 10, rect_top = 0, bottom = 20\<rparr>),
           (0, \<lparr>left = 10, rect_top = 0, bottom = 20\<rparr>)])
   \<and> \<not> claimedBest 0
         [(2, \<lparr>left = 0, rect_top = 20, bottom = 40\<rparr>),
          (1, \<lparr>left = 20, rect_top = 0, bottom = 20\<rparr>),
          (0, \<lparr>left = 10, rect_top = 0, bottom = 20\<rparr>),
          (0, \<lparr>left = 10, rect_top = 0, bottom = 20\<rparr>)]
         \<lparr>wasFound = True, distance = Some (Finite 10), offset = Some 0\<rparr>"
  by (simp add: indented_run claimedBest_def)

text \<open>
  C8, amended: a found result is one of the last two probes, the last offset probed
  inside the loop and the offset probed once after the loop. The probe after the loop is
  returned exactly when its distance to the target, \<^verbatim>\<open>Math.abs(coords.left - positionX)\<close> as
  the platform computes it, is strictly smaller than that of the last probe of the loop;
  the result carries the distance of the probe it returns. Earlier probes play no part.
\<close>

theorem binaryCursorSearch_last_two:
  assumes "binaryCursorSearch_run env doc host requiredOnFirstLine requiredOnLastLine positionX
             = Inr (res, asked)"
    and "wasFound res"
  shows "\<exists>pre o1 c1 o2 c2.
           asked = pre @ [(o1, c1), (o2, c2)]
           \<and> res = (if lessNumber (absDifference env (left c2) positionX) (absDifference env (left c1) positionX)
                    then \<lparr>wasFound = True, distance = Some (absDifference env (left c2) positionX), offset = Some o2\<rparr>
                    else \<lparr>wasFound = True, distance = Some (absDifference env (left c1) positionX), offset = Some o1\<rparr>)"
proof -
  have "1 \<le> getTotalCharCount doc host"
  proof (rule ccontr)
    assume "\<not> 1 \<le> getTotalCharCount doc host"
    then have "getTotalCharCount doc host = 0" by simp
    with assms show False by (auto simp: binaryCursorSearch_run_def)
  qed
  from run_found [OF this, of env requiredOnFirstLine requiredOnLastLine positionX]
  obtain pre o1 c1 o2 c2 where
    "binaryCursorSearch_run env doc host requiredOnFirstLine requiredOnLastLine positionX =
       Inr (if lessNumber (absDifference env (left c2) positionX) (absDifference env (left c1) positionX)
            then \<lparr>wasFound = True, distance = Some (absDifference env (left c2) positionX), offset = Some o2\<rparr>
            else \<lparr>wasFound = True, distance = Some (absDifference env (left c1) positionX), offset = Some o1\<rparr>,
            pre @ [(o1, c1), (o2, c2)])"
    by blast
  with assms(1) have "asked = pre @ [(o1, c1), (o2, c2)]"
    "res = (if lessNumber (absDifference env (left c2) positionX) (absDifference env (left c1) positionX)
            then \<lparr>wasFound = True, distance = Some (absDifference env (left c2) positionX), offset = Some o2\<rparr>
            else \<lparr>wasFound = True, distance = Some (absDifference env (left c1) positionX), offset = Some o1\<rparr>)"
    by simp_all
  then show ?thesis by blast
qed

text \<open>
  A host \<^verbatim>\<open><div>abcdefgh</div>\<close> on a single line with the boundary \<open>k\<close> at \<open>10 k\<close>
  pixels. The coordinates and targets used below are small integers, whose differences
  are exact in doubles. \<open>singleLineBoxes\<close> lists the boxes that a sequence of probes gets.
\<close>

definition singleLine :: rendering where
  "singleLine =
     \<lparr>hostRangeRect = Some \<lparr>left = 0, rect_top = 0, bottom = 20\<rparr>,
      hostElementRect = Some \<lparr>left = 0, rect_top = 0, bottom = 20\<rparr>,
      rangeRect = (\<lambda>k (n, off). Some \<lparr>left = 10 * real off, rect_top = 0, bottom = 20\<rparr>),
      absDifference = (\<lambda>a b. Finite \<bar>a - b\<bar>)\<rparr>"

definition singleLineBoxes :: "nat list \<Rightarrow> (nat \<times> DOMRect) list" where
  "singleLineBoxes offs = map (\<lambda>k. (k, \<lparr>left = 10 * real k, rect_top = 0, bottom = 20\<rparr>)) offs"

lemma textNodesUnder_abcdefgh: "textNodesUnder (Elem ''DIV'' [] [Text ''abcdefgh'']) [] = [[0]]"
  by (simp add: textNodesUnder_preorder nonEmptyText_def)

text \<open>
  With the target at 49 or at 41 pixels the interval shrinks to \<open>[4, 5]\<close> and then never
  collapses: \<^verbatim>\<open>moveRight\<close> and \<^verbatim>\<open>moveLeft\<close> alternate until \<^verbatim>\<open>safety\<close> is used up. The
  last probe of the loop is the boundary 4 and the probe after the loop the boundary 5.
  For the target 49 the probe after the loop is nearer and is returned; for the target
  41 the last probe of the loop is kept.
\<close>

lemma singleLine_run_49:
  "binaryCursorSearch_run singleLine (Elem ''DIV'' [] [Text ''abcdefgh'']) [] False False 49
   = Inr (\<lparr>wasFound = True, distance = Some (Finite 1), offset = Some 5\<rparr>,
          singleLineBoxes [4, 6, 5, 4, 5, 4, 5, 4, 5, 4, 5, 4, 5, 4, 5, 4, 5, 4, 5, 4, 5])"
  by (simp add: binaryCursorSearch_run_def getTotalCharCount_def textNodesUnder_abcdefgh textLength_def
      search_loop.simps search_body_def createRangeAtCharacterOffset_def
      getTextNodeAndRelativeOffset_def rangeCoords_def singleLine_def singleLineBoxes_def
      moveLeft_def moveRight_def Let_def)

lemma singleLine_run_41:
  "binaryCursorSearch_run singleLine (Elem ''DIV'' [] [Text ''abcdefgh'']) [] False False 41
   = Inr (\<lparr>wasFound = True, distance = Some (Finite 1), offset = Some 4\<rparr>,
          singleLineBoxes [4, 6, 5, 4, 5, 4, 5, 4, 5, 4, 5, 4, 5, 4, 5, 4, 5, 4, 5, 4, 5])"
  by (simp add: binaryCursorSearch_run_def getTotalCharCount_def textNodesUnder_abcdefgh textLength_def
      search_loop.simps search_body_def createRangeAtCharacterOffset_def
      getTextNodeAndRelativeOffset_def rangeCoords_def singleLine_def singleLineBoxes_def
      moveLeft_def moveRight_def Let_def)

theorem binaryCursorSearch_last_two_witness:
  "binaryCursorSearch_run singleLine (Elem ''DIV'' [] [Text ''abcdefgh'']) [] False False 49
     = Inr (\<lparr>wasFound = True, distance = Some (Finite 1), offset = Some 5\<rparr>,
            singleLineBoxes [4, 6, 5, 4, 5, 4, 5, 4, 5, 4, 5, 4, 5, 4, 5, 4, 5, 4, 5, 4, 5])
   \<and> wasFound \<lparr>wasFound = True, distance = Some (Finite 1), offset = Some 5\<rparr>
   \<and> (\<exists>pre o1 c1 o2 c2.
        singleLineBoxes [4, 6, 5, 4, 5, 4, 5, 4, 5, 4, 5, 4, 5, 4, 5, 4, 5, 4, 5, 4, 5] = pre @ [(o1, c1), (o2, c2)]
        \<and> \<lparr>wasFound = True, distance = Some (Finite 1), offset = Some 5\<rparr>
            = (if lessNumber (absDifference singleLine (left c2) 49) (absDifference singleLine (left c1) 49)
               then \<lparr>wasFound = True, distance = Some (absDifference singleLine (left c2) 49), offset = Some o2\<rparr>
               else \<lparr>wasFound = True, distance = Some (absDifference singleLine (left c1) 49), offset = Some o1\<rparr>))
   \<and> binaryCursorSearch_run singleLine (Elem ''DIV'' [] [Text ''abcdefgh'']) [] False False 41
     = Inr (\<lparr>wasFound = True, distance = Some (Finite 1), offset = Some 4\<rparr>,
            singleLineBoxes [4, 6, 5, 4, 5, 4, 5, 4, 5, 4, 5, 4, 5, 4, 5, 4, 5, 4, 5, 4, 5])
   \<and> wasFound \<lparr>wasFound = True, distance = Some (Finite 1), offset = Some 4\<rparr>
   \<and> (\<exists>pre o1 c1 o2 c2.
        singleLineBoxes [4, 6, 5, 4, 5, 4, 5, 4, 5, 4, 5, 4, 5, 4, 5, 4, 5, 4, 5, 4, 5] = pre @ [(o1, c1), (o2, c2)]
        \<and> \<lparr>wasFound = True, distance = Some (Finite 1), offset = Some 4\<rparr>
            = (if lessNumber (absDifference singleLine (left c2) 41) (absDifference singleLine (left c1) 41)
               then \<lparr>wasFound = True, distance = Some (absDifference singleLine (left c2) 41), offset = Some o2\<rparr>
               else \<lparr>wasFound = True, distance = Some (absDifference singleLine (left c1) 41), offset = Some o1\<rparr>))
   \<and> drop 19 (singleLineBoxes [4, 6, 5, 4, 5, 4, 5, 4, 5, 4, 5, 4, 5, 4, 5, 4, 5, 4, 5, 4, 5])
       = [(4, \<lparr>left = 40, rect_top = 0, bottom = 20\<rparr>), (5, \<lparr>left = 50, rect_top = 0, bottom = 20\<rparr>)]
   \<and> lessNumber (absDifference singleLine 50 49) (absDifference singleLine 40 49)
   \<and> \<not> lessNumber (absDifference singleLine 50 41) (absDifference singleLine 40 41)"
proof -
  have a: "(\<exists>pre o1 c1 o2 c2.
        singleLineBoxes [4, 6, 5, 4, 5, 4, 5, 4, 5, 4, 5, 4, 5, 4, 5, 4, 5, 4, 5, 4, 5] = pre @ [(o1, c1), (o2, c2)]
        \<and> \<lparr>wasFound = True, distance = Some (Finite 1), offset = Some 5\<rparr>
            = (if lessNumber (absDifference singleLine (left c2) 49) (absDifference singleLine (left c1) 49)
               then \<lparr>wasFound = True, distance = Some (absDifference singleLine (left c2) 49), offset = Some o2\<rparr>
               else \<lparr>wasFound = True, distance = Some (absDifference singleLine (left c1) 49), offset = Some o1\<rparr>))"
    using binaryCursorSearch_last_two [OF singleLine_run_49] by simp
  have b: "(\<exists>pre o1 c1 o2 c2.
        singleLineBoxes [4, 6, 5, 4, 5, 4, 5, 4, 5, 4, 5, 4, 5, 4, 5, 4, 5, 4, 5, 4, 5] = pre @ [(o1, c1), (o2, c2)]
        \<and> \<lparr>wasFound = True, distance = Some (Finite 1), offset = Some 4\<rparr>
            = (if lessNumber (absDifference singleLine (left c2) 41) (absDifference singleLine (left c1) 41)
               then \<lparr>wasFound = True, distance = Some (absDifference singleLine (left c2) 41), offset = Some o2\<rparr>
               else \<lparr>wasFound = True, distance = Some (absDifference singleLine (left c1) 41), offset = Some o1\<rparr>))"
    using binaryCursorSearch_last_two [OF singleLine_run_41] by simp
  have c: "drop 19 (singleLineBoxes [4, 6, 5, 4, 5, 4, 5, 4, 5, 4, 5, 4, 5, 4, 5, 4, 5, 4, 5, 4, 5])
       = [(4, \<lparr>left = 40, rect_top = 0, bottom = 20\<rparr>), (5, \<lparr>left = 50, rect_top = 0, bottom = 20\<rparr>)]"
    by (simp add: singleLineBoxes_def)
  have d: "lessNumber (absDifference singleLine 50 49) (absDifference singleLine 40 49)"
    "\<not> lessNumber (absDifference singleLine 50 41) (absDifference singleLine 40 41)"
    by (simp_all add: singleLine_def)
  have e: "wasFound \<lparr>wasFound = True, distance = Some (Finite 1), offset = Some 5\<rparr>" "wasFound \<lparr>wasFound = True, distance = Some (Finite 1), offset = Some 4\<rparr>" by simp_all
  show ?thesis by (intro conjI singleLine_run_49 singleLine_run_41 a b c d e)
qed

text \<open>
  The bound of C7 is reached: these runs make all 20 iterations.
\<close>

lemma oscillating_run:
  "map_sum id (\<lambda>(res, asked). (res, map fst asked))
     (binaryCursorSearch_run singleLine (Elem ''DIV'' [] [Text ''abcdefgh'']) [] False False 41)
   = Inr (\<lparr>wasFound = True, distance = Some (Finite 1), offset = Some 4\<rparr>,
          [4, 6, 5, 4, 5, 4, 5, 4, 5, 4, 5, 4, 5, 4, 5, 4, 5, 4, 5, 4, 5])"
  by (simp add: singleLine_run_41 singleLineBoxes_def)


section \<open>Match collection (src/plugins/highlighting/match-collection.ts)\<close>

text \<open>
  A match as the highlighting code passes it around: the two indexes, the decoration
  template to clone (\<^verbatim>\<open>marker\<close>), the optional id and title. The field \<^verbatim>\<open>id\<close> of the
  source is \<open>match_id\<close> here.
\<close>

record Match =
  startIndex :: int
  endIndex :: int
  marker :: "node option"
  match_id :: "string option"
  title :: "string option"

record MatchCollection =
  matches :: "Match list"

record MergeState =
  a1 :: "Match list"
  i1 :: nat
  a2 :: "Match list"
  i2 :: nat

text \<open>Reading a JavaScript array: \<^verbatim>\<open>undefined\<close> beyond the end.\<close>

definition item :: "'a list \<Rightarrow> nat \<Rightarrow> 'a option" where
  "item xs i = (if i < length xs then Some (xs ! i) else None)"

definition pickNext :: "MergeState \<Rightarrow> Match option \<times> MergeState" where
  "pickNext state =
     (let item1 = item (a1 state) (i1 state);
          item2 = item (a2 state) (i2 state)
      in case (item1, item2) of
           (Some x1, Some x2) \<Rightarrow>
             if startIndex x1 < startIndex x2
             then (Some x1, state\<lparr>i1 := i1 state + 1\<rparr>)
             else (Some x2, state\<lparr>i2 := i2 state + 1\<rparr>)
         | (Some x1, None) \<Rightarrow> (Some x1, state\<lparr>i1 := i1 state + 1\<rparr>)
         | (None, Some x2) \<Rightarrow> (Some x2, state\<lparr>i2 := i2 state + 1\<rparr>)
         | (None, None) \<Rightarrow> (None, state))"

text \<open>
  The \<^verbatim>\<open>while\<close> loop of \<^verbatim>\<open>mergeMatches\<close>, with the running \<^verbatim>\<open>lastEndIndex\<close> and
  the output built so far. Both branches that see a match assign its
  \<^verbatim>\<open>endIndex\<close> to \<^verbatim>\<open>lastEndIndex\<close>.
\<close>

function mergeLoop :: "MergeState \<Rightarrow> int \<Rightarrow> Match list \<Rightarrow> Match list" where
  "mergeLoop state lastEndIndex output =
     (if i1 state < length (a1 state) \<or> i2 state < length (a2 state)
      then (case pickNext state of
              (Some next, state') \<Rightarrow>
                if startIndex next \<ge> lastEndIndex
                then mergeLoop state' (endIndex next) (output @ [next])
                else mergeLoop state' (endIndex next) output
            | (None, state') \<Rightarrow> mergeLoop state' lastEndIndex output)
      else output)"
  by pat_completeness auto
termination
  by (relation "measure (\<lambda>(s, l, out). (length (a1 s) - i1 s) + (length (a2 s) - i2 s))")
     (auto simp: pickNext_def item_def Let_def split: if_splits)

definition mergeMatches :: "Match list \<Rightarrow> Match list \<Rightarrow> Match list" where
  "mergeMatches matches1 matches2 =
     mergeLoop \<lparr>a1 = matches1, i1 = 0, a2 = matches2, i2 = 0\<rparr> (- 1) []"

definition addMatches :: "MatchCollection \<Rightarrow> Match list \<Rightarrow> MatchCollection" where
  "addMatches c ms = (if ms = [] then c else c\<lparr>matches := mergeMatches (matches c) ms\<rparr>)"

definition newMatchCollection :: MatchCollection where
  "newMatchCollection = \<lparr>matches = []\<rparr>"

text \<open>A match that carries only its two indexes, as the tests of the collection build it.\<close>

definition plainMatch :: "int \<Rightarrow> int \<Rightarrow> Match" where
  "plainMatch s e = \<lparr>startIndex = s, endIndex = e, marker = None, match_id = None, title = None\<rparr>"

text \<open>The invariant the collection is meant to keep: consecutive stored matches do not overlap.\<close>

fun nonOverlapping :: "Match list \<Rightarrow> bool" where
  "nonOverlapping (m # m' # ms) = (endIndex m \<le> startIndex m' \<and> nonOverlapping (m' # ms))"
| "nonOverlapping _ = True"

subsection \<open>Properties of the merge\<close>

lemma pickNext_both:
  assumes "i1 st < length (a1 st)" and "i2 st < length (a2 st)"
  shows "pickNext st =
           (if startIndex (a1 st ! i1 st) < startIndex (a2 st ! i2 st)
            then (Some (a1 st ! i1 st), st\<lparr>i1 := i1 st + 1\<rparr>)
            else (Some (a2 st ! i2 st), st\<lparr>i2 := i2 st + 1\<rparr>))"
  using assms by (simp add: pickNext_def item_def)

text \<open>The two examples of the collection's tests: adjacent matches are both kept, a later overlap is dropped.\<close>

lemma mergeMatches_examples:
  "mergeMatches (mergeMatches [] [plainMatch 0 1]) [plainMatch 1 2] = [plainMatch 0 1, plainMatch 1 2]"
  "mergeMatches (mergeMatches [] [plainMatch 0 2]) [plainMatch 1 2] = [plainMatch 0 2]"
  by (simp_all add: mergeMatches_def pickNext_def item_def plainMatch_def)

text \<open>
  C3. The stored list is meant to stay free of overlaps. On the stored list \<open>[{0,10}]\<close>
  and the sorted batch \<open>[{1,2},{3,4}]\<close> the merge drops \<open>{1,2}\<close>, lowers
  \<^verbatim>\<open>lastEndIndex\<close> from 10 to 2 while doing so, and then accepts \<open>{3,4}\<close>, which lies
  inside \<open>{0,10}\<close>: the stored list afterwards overlaps.
\<close>

theorem addMatches_stores_overlap:
  "matches (addMatches (addMatches newMatchCollection [plainMatch 0 10])
              [plainMatch 1 2, plainMatch 3 4])
     = [plainMatch 0 10, plainMatch 3 4]
   \<and> \<not> nonOverlapping (matches (addMatches (addMatches newMatchCollection [plainMatch 0 10])
              [plainMatch 1 2, plainMatch 3 4]))"
  by (simp add: addMatches_def newMatchCollection_def mergeMatches_def pickNext_def item_def
      plainMatch_def)

text \<open>
  C4. A dropped match is meant to raise the running last end only when its own end is
  greater. In the state reached after \<open>{0,10}\<close> was emitted (last end 10), picking
  \<open>{1,2}\<close> drops it and continues with last end 2; the whole merge of \<open>[{0,10}]\<close> with
  \<open>[{1,2},{3,4}]\<close> therefore emits \<open>{3,4}\<close>.
\<close>

theorem mergeMatches_lowers_lastEndIndex:
  "mergeLoop \<lparr>a1 = [plainMatch 0 10], i1 = 1, a2 = [plainMatch 1 2], i2 = 0\<rparr> 10 [] = []
   \<and> mergeLoop \<lparr>a1 = [plainMatch 0 10], i1 = 1, a2 = [plainMatch 1 2, plainMatch 2 3], i2 = 0\<rparr> 10 []
       = [plainMatch 2 3]
   \<and> mergeMatches [plainMatch 0 10] [plainMatch 1 2, plainMatch 3 4]
       = [plainMatch 0 10, plainMatch 3 4]"
  by (simp add: mergeMatches_def pickNext_def item_def plainMatch_def)

text \<open>
  C5, as stated: on equal \<^verbatim>\<open>startIndex\<close> the item of the existing list is taken first.
  It is not: \<^verbatim>\<open>pickNext\<close> takes the existing item only when its \<^verbatim>\<open>startIndex\<close> is
  strictly smaller. With \<open>{0,1}\<close> stored and \<open>{0,2}\<close> arriving, the new item is picked
  first and the stored one is then dropped.
\<close>

theorem pickNext_tie_counterexample:
  "fst (pickNext \<lparr>a1 = [plainMatch 0 1], i1 = 0, a2 = [plainMatch 0 2], i2 = 0\<rparr>)
     = Some (plainMatch 0 2)
   \<and> fst (pickNext \<lparr>a1 = [plainMatch 0 1], i1 = 0, a2 = [plainMatch 0 2], i2 = 0\<rparr>)
     \<noteq> Some (plainMatch 0 1)
   \<and> mergeMatches [plainMatch 0 1] [plainMatch 0 2] = [plainMatch 0 2]"
  by (simp add: mergeMatches_def pickNext_def item_def plainMatch_def)

text \<open>
  C5, amended: whenever both lists still have an unconsumed item and the two items have
  equal \<^verbatim>\<open>startIndex\<close>, \<^verbatim>\<open>pickNext\<close> returns the item of the new batch and advances
  only the index into the new batch; the item of the existing list is returned first
  exactly when its \<^verbatim>\<open>startIndex\<close> is strictly smaller.
\<close>

theorem pickNext_tie_takes_new_batch:
  assumes "i1 st < length (a1 st)" and "i2 st < length (a2 st)"
  shows "(startIndex (a1 st ! i1 st) = startIndex (a2 st ! i2 st) \<longrightarrow>
            pickNext st = (Some (a2 st ! i2 st), st\<lparr>i2 := i2 st + 1\<rparr>))
       \<and> (fst (pickNext st) = Some (a1 st ! i1 st) \<and> snd (pickNext st) = st\<lparr>i1 := i1 st + 1\<rparr>
            \<longleftrightarrow> startIndex (a1 st ! i1 st) < startIndex (a2 st ! i2 st))"
proof -
  have neq: "st\<lparr>i2 := i2 st + 1\<rparr> \<noteq> st\<lparr>i1 := i1 st + 1\<rparr>"
  proof
    assume "st\<lparr>i2 := i2 st + 1\<rparr> = st\<lparr>i1 := i1 st + 1\<rparr>"
    then have "i2 (st\<lparr>i2 := i2 st + 1\<rparr>) = i2 (st\<lparr>i1 := i1 st + 1\<rparr>)" by simp
    then show False by simp
  qed
  show ?thesis using neq by (simp add: pickNext_both [OF assms])
qed

theorem pickNext_tie_takes_new_batch_witness:
  "(0::nat) < length [plainMatch 5 6] \<and> (0::nat) < length [plainMatch 5 9]
   \<and> pickNext \<lparr>a1 = [plainMatch 5 6], i1 = 0, a2 = [plainMatch 5 9], i2 = 0\<rparr>
       = (Some (plainMatch 5 9), \<lparr>a1 = [plainMatch 5 6], i1 = 0, a2 = [plainMatch 5 9], i2 = 1\<rparr>)"
  using pickNext_tie_takes_new_batch
    [of "\<lparr>a1 = [plainMatch 5 6], i1 = 0, a2 = [plainMatch 5 9], i2 = 0\<rparr>"]
  by (simp add: plainMatch_def)

section \<open>Changing the tree\<close>

text \<open>
  \<open>replaceAt p f\<close> puts the nodes \<open>f x\<close> in the place of the node \<open>x\<close> that stands at
  the path \<open>p\<close>, among the children of its parent. The top node has no parent and
  stays; so does a tree that has no node at \<open>p\<close>.
\<close>

fun replaceKids :: "path \<Rightarrow> (node \<Rightarrow> node list) \<Rightarrow> node list \<Rightarrow> node list" where
  "replaceKids [] f ks = ks"
| "replaceKids [j] f ks = (if j < length ks then take j ks @ f (ks ! j) @ drop (Suc j) ks else ks)"
| "replaceKids (j # p) f ks =
     (if j < length ks
      then (case ks ! j of
              Elem tg atts cs \<Rightarrow> ks[j := Elem tg atts (replaceKids p f cs)]
            | Text d \<Rightarrow> ks)
      else ks)"

fun replaceAt :: "path \<Rightarrow> (node \<Rightarrow> node list) \<Rightarrow> node \<Rightarrow> node" where
  "replaceAt p f (Text d) = Text d"
| "replaceAt p f (Elem tg atts ks) = Elem tg atts (replaceKids p f ks)"

section \<open>Boundary persistence: restore (src/range-save-restore.ts)\<close>

text \<open>
  A \<^verbatim>\<open>Range\<close>: two boundary points, each a container and an offset. The container of
  a fresh range is the document, the top of the tree.
\<close>

record Range =
  startContainer :: path
  startOffset :: nat
  endContainer :: path
  endOffset :: nat

definition createRange :: Range where
  "createRange = \<lparr>startContainer = [], startOffset = 0, endContainer = [], endOffset = 0\<rparr>"

datatype position = Before | Equal | After

text \<open>
  The position of a boundary point relative to another (DOM standard, section on
  ranges), for boundary points of one tree. \<open>precedingPosition\<close> is the case where the
  first container precedes the second in tree order.
\<close>

definition precedingPosition :: "path \<times> nat \<Rightarrow> path \<times> nat \<Rightarrow> position" where
  "precedingPosition a b =
     (if strict_prefix (fst a) (fst b) \<and> fst b ! length (fst a) < snd a then After else Before)"

definition boundaryPosition :: "path \<times> nat \<Rightarrow> path \<times> nat \<Rightarrow> position" where
  "boundaryPosition a b =
     (if fst a = fst b
      then (if snd a = snd b then Equal else if snd a < snd b then Before else After)
      else if fst b < fst a
      then (case precedingPosition b a of Before \<Rightarrow> After | _ \<Rightarrow> Before)
      else precedingPosition a b)"

definition setStart :: "Range \<Rightarrow> path \<Rightarrow> nat \<Rightarrow> Range" where
  "setStart rng n off =
     (if boundaryPosition (n, off) (endContainer rng, endOffset rng) = After
      then rng\<lparr>startContainer := n, startOffset := off, endContainer := n, endOffset := off\<rparr>
      else rng\<lparr>startContainer := n, startOffset := off\<rparr>)"

definition setEnd :: "Range \<Rightarrow> path \<Rightarrow> nat \<Rightarrow> Range" where
  "setEnd rng n off =
     (if boundaryPosition (n, off) (startContainer rng, startOffset rng) = Before
      then rng\<lparr>startContainer := n, startOffset := off, endContainer := n, endOffset := off\<rparr>
      else rng\<lparr>endContainer := n, endOffset := off\<rparr>)"

text \<open>
  \<^verbatim>\<open>setStartBefore\<close>, \<^verbatim>\<open>setEndBefore\<close> and \<^verbatim>\<open>setEndAfter\<close> are called on nodes that have
  a parent; on the top node the DOM throws, and the range is left as it is here.
\<close>

definition setStartBefore :: "Range \<Rightarrow> path \<Rightarrow> Range" where
  "setStartBefore rng n = (if n = [] then rng else setStart rng (butlast n) (last n))"

definition setEndBefore :: "Range \<Rightarrow> path \<Rightarrow> Range" where
  "setEndBefore rng n = (if n = [] then rng else setEnd rng (butlast n) (last n))"

definition setEndAfter :: "Range \<Rightarrow> path \<Rightarrow> Range" where
  "setEndAfter rng n = (if n = [] then rng else setEnd rng (butlast n) (Suc (last n)))"

definition collapseToStart :: "Range \<Rightarrow> Range" where
  "collapseToStart rng = rng\<lparr>endContainer := startContainer rng, endOffset := startOffset rng\<rparr>"

text \<open>
  Removing the node at \<open>m\<close>: what becomes of a boundary point of a live range. A
  container inside the removed node moves to the place of the removed node; an offset
  in the parent behind the removed node moves down by one; and a container that
  stands behind the removed node under the same parent is now reached through an index
  that is one less.
\<close>

definition boundaryAfterRemove :: "path \<Rightarrow> path \<times> nat \<Rightarrow> path \<times> nat" where
  "boundaryAfterRemove m b =
     (let parent = butlast m; index = last m; c = fst b; off = snd b
      in if prefix m c then (parent, index)
         else if c = parent then (if off > index then (parent, off - 1) else (c, off))
         else if strict_prefix parent c \<and> c ! length parent > index
         then (c[length parent := c ! length parent - 1], off)
         else (c, off))"

definition removeNode :: "node \<Rightarrow> Range \<Rightarrow> path \<Rightarrow> node \<times> Range" where
  "removeNode doc rng m =
     (if m = [] then (doc, rng)
      else (let s = boundaryAfterRemove m (startContainer rng, startOffset rng);
                e = boundaryAfterRemove m (endContainer rng, endOffset rng)
            in (replaceAt m (\<lambda>x. []) doc,
                \<lparr>startContainer = fst s, startOffset = snd s, endContainer = fst e, endOffset = snd e\<rparr>)))"

text \<open>\<^verbatim>\<open>host.querySelector('#' + id)\<close>: the first element below the host, in tree order, with that id.\<close>

fun findById :: "string \<Rightarrow> nat \<Rightarrow> node list \<Rightarrow> path option" where
  "findById idv i [] = None"
| "findById idv i (Text d # ks) = findById idv (Suc i) ks"
| "findById idv i (Elem tg atts cs # ks) =
     (if map_of atts ''id'' = Some idv then Some [i]
      else (case findById idv 0 cs of
              Some p \<Rightarrow> Some (i # p)
            | None \<Rightarrow> findById idv (Suc i) ks))"

definition getMarker :: "node \<Rightarrow> path \<Rightarrow> string \<Rightarrow> path option" where
  "getMarker doc host idv =
     (case nodeAt doc host of
        Some (Elem tg atts ks) \<Rightarrow> map_option ((@) host) (findById idv 0 ks)
      | _ \<Rightarrow> None)"

definition previousSibling :: "node \<Rightarrow> path \<Rightarrow> path option" where
  "previousSibling doc n =
     (if n = [] \<or> last n = 0 then None
      else (case nodeAt doc (butlast n @ [last n - 1]) of
              Some k \<Rightarrow> Some (butlast n @ [last n - 1])
            | None \<Rightarrow> None))"

text \<open>
  \<^verbatim>\<open>compareDocumentPosition\<close> gives exactly \<^verbatim>\<open>DOCUMENT_POSITION_FOLLOWING\<close> when the
  other node comes later in tree order and is not a descendant, and exactly
  \<^verbatim>\<open>DOCUMENT_POSITION_PRECEDING\<close> when it comes earlier and is not an ancestor.
\<close>

definition followsOutside :: "path \<Rightarrow> path \<Rightarrow> bool" where
  "followsOutside a b = (a < b \<and> \<not> prefix a b)"

definition normalizeBoundaries :: "Range \<Rightarrow> Range" where
  "normalizeBoundaries rng =
     (let r1 = (if followsOutside (startContainer rng) (endContainer rng)
                then setStartBefore rng (endContainer rng) else rng)
      in if followsOutside (startContainer r1) (endContainer r1)
         then setEndAfter r1 (startContainer r1) else r1)"

record RangeInfo =
  markerId :: "string option"
  startMarkerId :: "string option"
  endMarkerId :: "string option"
  collapsed :: bool
  restored :: "bool option"

text \<open>The length of a node: the number of code units of a text node, of children of an element.\<close>

definition nodeLength :: "node \<Rightarrow> path \<Rightarrow> nat" where
  "nodeLength doc n =
     (case nodeAt doc n of
        Some (Text d) \<Rightarrow> length d
      | Some (Elem tg atts ks) \<Rightarrow> length ks
      | None \<Rightarrow> 0)"

definition isTextNode :: "node \<Rightarrow> path \<Rightarrow> bool" where
  "isTextNode doc n = (case nodeAt doc n of Some (Text d) \<Rightarrow> True | _ \<Rightarrow> False)"

text \<open>
  \<^verbatim>\<open>setRangeBoundary\<close> works on the document, the range and the console: it returns
  all three.
\<close>

definition setRangeBoundary ::
  "node \<Rightarrow> path \<Rightarrow> Range \<Rightarrow> string \<Rightarrow> bool \<Rightarrow> string list \<Rightarrow> node \<times> Range \<times> string list" where
  "setRangeBoundary doc host rng mId atStart console =
     (case getMarker doc host mId of
        None \<Rightarrow> (doc, rng, console @ [''Marker element has been removed. Cannot restore selection.''])
      | Some markerEl \<Rightarrow>
          (let rng1 = (if atStart then setStartBefore rng markerEl else setEndBefore rng markerEl);
               (doc', rng2) = removeNode doc rng1 markerEl
           in (doc', rng2, console)))"

text \<open>
  \<^verbatim>\<open>restore\<close>: the range returned (\<open>None\<close> for \<^verbatim>\<open>undefined\<close>), the document afterwards
  and what was written to the console. The marker's \<^verbatim>\<open>style.display\<close> is not
  modelled: the marker is removed in both branches that set it.
\<close>

definition restore :: "node \<Rightarrow> path \<Rightarrow> RangeInfo \<Rightarrow> Range option \<times> node \<times> string list" where
  "restore doc host rangeInfo =
     (if restored rangeInfo = Some True then (None, doc, [])
      else if collapsed rangeInfo
      then (case markerId rangeInfo of
              None \<Rightarrow> (None, doc, [''Marker ID is missing. Cannot restore selection.''])
            | Some mId \<Rightarrow>
                if mId = [] then (None, doc, [''Marker ID is missing. Cannot restore selection.''])
                else (case getMarker doc host mId of
                        Some markerEl \<Rightarrow>
                          (case previousSibling doc markerEl of
                             Some previousNode \<Rightarrow>
                               if isTextNode doc previousNode
                               then (let (doc', rng1) = removeNode doc createRange markerEl;
                                         rng2 = setStart rng1 previousNode (nodeLength doc' previousNode)
                                     in (Some (normalizeBoundaries rng2), doc', []))
                               else (let rng1 = collapseToStart (setStartBefore createRange markerEl);
                                         (doc', rng2) = removeNode doc rng1 markerEl
                                     in (Some (normalizeBoundaries rng2), doc', []))
                           | None \<Rightarrow>
                               (let rng1 = collapseToStart (setStartBefore createRange markerEl);
                                    (doc', rng2) = removeNode doc rng1 markerEl
                                in (Some (normalizeBoundaries rng2), doc', [])))
                      | None \<Rightarrow>
                          (Some (normalizeBoundaries createRange), doc,
                           [''Marker element has been removed. Cannot restore selection.''])))
      else (case (startMarkerId rangeInfo, endMarkerId rangeInfo) of
              (Some sId, Some eId) \<Rightarrow>
                if sId = [] \<or> eId = []
                then (None, doc, [''Marker IDs are missing. Cannot restore selection.''])
                else (let (doc1, rng1, console1) = setRangeBoundary doc host createRange sId True [];
                          (doc2, rng2, console2) = setRangeBoundary doc1 host rng1 eId False console1
                      in (Some (normalizeBoundaries rng2), doc2, console2))
            | _ \<Rightarrow> (None, doc, [''Marker IDs are missing. Cannot restore selection.''])))"

text \<open>
  C9. A restore whose marker is no longer inside the host is meant to fail visibly.
  It does not: the branch writes to the console and falls through to
  \<^verbatim>\<open>return range\<close>, so the caller receives the fresh range, collapsed at the start of the
  document. The token is not marked as consumed either, so a second restore of the same
  token takes that branch too. The first line below is a collapsed token without its
  marker, the second and third a first and a second restore of one token, the fourth a
  selection token without its two markers.
\<close>

theorem restore_missing_marker_returns_range:
  "restore (Elem ''HTML'' [] [Elem ''DIV'' [] [Text ''abc'']]) [0]
      \<lparr>markerId = Some ''editable-range-boundary-1'', startMarkerId = None, endMarkerId = None,
       collapsed = True, restored = None\<rparr>
     = (Some \<lparr>startContainer = [], startOffset = 0, endContainer = [], endOffset = 0\<rparr>,
        Elem ''HTML'' [] [Elem ''DIV'' [] [Text ''abc'']],
        [''Marker element has been removed. Cannot restore selection.''])
   \<and> restore (Elem ''HTML'' [] [Elem ''DIV'' []
                 [Text ''ab'',
                  Elem ''SPAN'' [(''id'', ''editable-range-boundary-1''), (''data-editable'', ''remove'')]
                    [Text ''*''],
                  Text ''c'']]) [0]
      \<lparr>markerId = Some ''editable-range-boundary-1'', startMarkerId = None, endMarkerId = None,
       collapsed = True, restored = None\<rparr>
     = (Some \<lparr>startContainer = [0, 0], startOffset = 2, endContainer = [0, 0], endOffset = 2\<rparr>,
        Elem ''HTML'' [] [Elem ''DIV'' [] [Text ''ab'', Text ''c'']],
        [])
   \<and> restore (Elem ''HTML'' [] [Elem ''DIV'' [] [Text ''ab'', Text ''c'']]) [0]
      \<lparr>markerId = Some ''editable-range-boundary-1'', startMarkerId = None, endMarkerId = None,
       collapsed = True, restored = None\<rparr>
     = (Some \<lparr>startContainer = [], startOffset = 0, endContainer = [], endOffset = 0\<rparr>,
        Elem ''HTML'' [] [Elem ''DIV'' [] [Text ''ab'', Text ''c'']],
        [''Marker element has been removed. Cannot restore selection.''])
   \<and> restore (Elem ''HTML'' [] [Elem ''DIV'' [] [Text ''abc'']]) [0]
      \<lparr>markerId = None, startMarkerId = Some ''editable-range-boundary-3'',
       endMarkerId = Some ''editable-range-boundary-2'', collapsed = False, restored = None\<rparr>
     = (Some \<lparr>startContainer = [], startOffset = 0, endContainer = [], endOffset = 0\<rparr>,
        Elem ''HTML'' [] [Elem ''DIV'' [] [Text ''abc'']],
        [''Marker element has been removed. Cannot restore selection.'',
         ''Marker element has been removed. Cannot restore selection.''])"
  by (simp add: restore_def getMarker_def setRangeBoundary_def normalizeBoundaries_def
      followsOutside_def createRange_def previousSibling_def isTextNode_def removeNode_def
      boundaryAfterRemove_def setStart_def boundaryPosition_def precedingPosition_def
      nodeLength_def Let_def)

text \<open>A selection saved with two markers and restored while both are present.\<close>

lemma restore_selection_example:
  "restore (Elem ''HTML'' [] [Elem ''DIV'' []
              [Elem ''SPAN'' [(''id'', ''editable-range-boundary-2''), (''data-editable'', ''remove'')] [Text ''*''],
               Elem ''EM'' [] [Text ''a''],
               Elem ''EM'' [] [Text ''b''],
               Elem ''SPAN'' [(''id'', ''editable-range-boundary-1''), (''data-editable'', ''remove'')] [Text ''*'']]]) [0]
      \<lparr>markerId = None, startMarkerId = Some ''editable-range-boundary-2'',
       endMarkerId = Some ''editable-range-boundary-1'', collapsed = False, restored = None\<rparr>
     = (Some \<lparr>startContainer = [0], startOffset = 0, endContainer = [0], endOffset = 2\<rparr>,
        Elem ''HTML'' [] [Elem ''DIV'' [] [Elem ''EM'' [] [Text ''a''], Elem ''EM'' [] [Text ''b'']]],
        [])"
  by (simp add: restore_def getMarker_def setRangeBoundary_def normalizeBoundaries_def
      followsOutside_def createRange_def removeNode_def setStartBefore_def setEndBefore_def
      boundaryAfterRemove_def setStart_def setEnd_def boundaryPosition_def precedingPosition_def
      Let_def)

section \<open>Highlight overlay (src/unnamed/part_011, src/highlight-support.ts, src/content.ts)\<close>

text \<open>
  The highlighter works inside the element it is given: the walker never leaves its
  root, \<^verbatim>\<open>querySelectorAll\<close> looks below the element, and every node that is wrapped or
  unwrapped has its parent inside the element. In this section the element is the top
  of the tree, so the walker's root is the empty path.
\<close>

subsection \<open>DOM operations\<close>

text \<open>
  \<^verbatim>\<open>Node.normalize()\<close>: every run of adjacent text nodes becomes one text node with the
  concatenated data, or nothing when that is empty.
\<close>

fun normalizeKids :: "node list \<Rightarrow> node list" where
  "normalizeKids [] = []"
| "normalizeKids (Text a # Text b # ks) = normalizeKids (Text (a @ b) # ks)"
| "normalizeKids (Text a # ks) = (if a = [] then [] else [Text a]) @ normalizeKids ks"
| "normalizeKids (Elem tg atts cs # ks) = Elem tg atts (normalizeKids cs) # normalizeKids ks"

fun normalize :: "node \<Rightarrow> node" where
  "normalize (Text d) = Text d"
| "normalize (Elem tg atts ks) = Elem tg atts (normalizeKids ks)"

fun setAttribute :: "string \<Rightarrow> string \<Rightarrow> (string \<times> string) list \<Rightarrow> (string \<times> string) list" where
  "setAttribute name v [] = [(name, v)]"
| "setAttribute name v ((k, x) # atts) =
     (if k = name then (k, v) # atts else (k, x) # setAttribute name v atts)"

text \<open>
  The platform, where this section does not write its behaviour out: the answer of
  \<^verbatim>\<open>querySelectorAll\<close> to a selector (a list of elements, or the name of the exception it
  throws) and \<^verbatim>\<open>String(n)\<close> for a number. Each is consulted only outside the cases that
  are written out below, a plain id and a safe integer. What is proved of the
  highlighter holds for every platform.
\<close>

record platform =
  querySelectorAll :: "node \<Rightarrow> string \<Rightarrow> string + path list"
  numberString :: "int \<Rightarrow> string"

text \<open>
  \<^verbatim>\<open>String(n)\<close> for an integer \<open>n\<close>. A safe integer, below \<open>2\<^sup>5\<^sup>3\<close> in absolute value, is
  written with its decimal digits. Beyond that the digits written are the shortest that
  identify the double, and from \<open>10\<^sup>2\<^sup>1\<close> on the notation has an exponent
  (\<^verbatim>\<open>String(-1e21)\<close> is \<^verbatim>\<open>"-1e+21"\<close>): there the string is the platform's.
\<close>

fun digits :: "nat \<Rightarrow> string" where
  "digits n = (if n < 10 then [char_of (48 + n)] else digits (n div 10) @ [char_of (48 + n mod 10)])"

definition numberToString :: "platform \<Rightarrow> int \<Rightarrow> string" where
  "numberToString js i =
     (if \<bar>i\<bar> < 2 ^ 53
      then (if i < 0 then CHR ''-'' # digits (nat (- i)) else digits (nat i))
      else numberString js i)"

text \<open>
  \<^verbatim>\<open>element.querySelectorAll(`[data-word-id="${id}"]`)\<close>. The id is pasted into the
  selector between double quotes. An id is plain when it has none of the characters that
  end or escape a quoted string or are replaced before the selector is read: the double
  quote, the backslash, line feed, form feed, carriage return and the null character.
  For a plain id the selector is the attribute selector for exactly this value, and the
  answer is the elements below the host that carry the id, in tree order. Any other id
  makes another selector or none (\<^verbatim>\<open>[data-word-id="a"b"]\<close> is a syntax error, and a
  backslash before a letter makes the selector ask for another value): the answer is
  then the platform's.
\<close>

definition plainId :: "string \<Rightarrow> bool" where
  "plainId w =
     list_all (\<lambda>c. c \<notin> set [CHR 0x22, CHR 0x5C, CHR 0x0A, CHR 0x0C, CHR 0x0D, CHR 0x00]) w"

definition wordIdSelector :: "string \<Rightarrow> string" where
  "wordIdSelector w = ''[data-word-id='' @ [CHR 0x22] @ w @ [CHR 0x22] @ '']''"

fun wordIdElements :: "string \<Rightarrow> nat \<Rightarrow> node list \<Rightarrow> path list" where
  "wordIdElements w i [] = []"
| "wordIdElements w i (Text d # ks) = wordIdElements w (Suc i) ks"
| "wordIdElements w i (Elem tg atts cs # ks) =
     (if map_of atts ''data-word-id'' = Some w then [[i]] else [])
     @ map ((#) i) (wordIdElements w 0 cs)
     @ wordIdElements w (Suc i) ks"

definition querySelectorAll_wordId :: "platform \<Rightarrow> node \<Rightarrow> string \<Rightarrow> string + path list" where
  "querySelectorAll_wordId js host w =
     (if plainId w then Inr (wordIdElements w 0 (childNodes host))
      else querySelectorAll js host (wordIdSelector w))"

text \<open>\<^verbatim>\<open>content.unwrap(elem)\<close>: the children of the element take its place.\<close>

definition unwrap :: "node \<Rightarrow> path \<Rightarrow> node" where
  "unwrap doc elem = (if elem = [] then doc else replaceAt elem childNodes doc)"

text \<open>
  References held across a change of the tree. A node keeps its identity when its
  siblings change, but not its path: \<open>movedByUnwrap e c p\<close> is the path, after the
  element at \<open>e\<close> with \<open>c\<close> children was unwrapped, of the node that stood at \<open>p\<close>
  before, and \<open>movedByInsert e k p\<close> is its path after \<open>k\<close> siblings were inserted
  directly behind the node at \<open>e\<close>.
\<close>

fun movedByUnwrap :: "path \<Rightarrow> nat \<Rightarrow> path \<Rightarrow> path" where
  "movedByUnwrap [j] c (i # r) =
     (if i = j then (case r of [] \<Rightarrow> [j] | i' # r' \<Rightarrow> (j + i') # r')
      else if i > j then (i + c - 1) # r
      else i # r)"
| "movedByUnwrap (j # e) c (i # r) = (if i = j then i # movedByUnwrap e c r else i # r)"
| "movedByUnwrap e c p = p"

fun movedByInsert :: "path \<Rightarrow> nat \<Rightarrow> path \<Rightarrow> path" where
  "movedByInsert [j] k (i # r) = (if i > j then (i + k) # r else i # r)"
| "movedByInsert (j # e) k (i # r) = (if i = j then i # movedByInsert e k r else i # r)"
| "movedByInsert e k p = p"

definition childCount :: "node \<Rightarrow> path \<Rightarrow> nat" where
  "childCount doc n = (case nodeAt doc n of Some x \<Rightarrow> length (childNodes x) | None \<Rightarrow> 0)"

text \<open>The loop of \<^verbatim>\<open>removeHighlight\<close> over the elements that \<^verbatim>\<open>querySelectorAll\<close> returned.\<close>

fun unwrapEach :: "node \<Rightarrow> path list \<Rightarrow> node" where
  "unwrapEach doc [] = doc"
| "unwrapEach doc (elem # elems) =
     unwrapEach (unwrap doc elem) (map (movedByUnwrap elem (childCount doc elem)) elems)"

text \<open>
  \<^verbatim>\<open>removeHighlight\<close>. An exception of \<^verbatim>\<open>querySelectorAll\<close> ends the call before the tree
  is touched.
\<close>

definition removeHighlight :: "platform \<Rightarrow> node \<Rightarrow> string \<Rightarrow> string + node" where
  "removeHighlight js editableHost highlightId =
     (case querySelectorAll_wordId js editableHost highlightId of
        Inl e \<Rightarrow> Inl e
      | Inr elems \<Rightarrow> Inr (normalize (unwrapEach editableHost elems)))"


subsection \<open>Wrapping a match\<close>

record Portion =
  element :: path
  portion_text :: string
  portion_offset :: int
  portion_length :: int
  isLastPortion :: bool
  wordId :: string

text \<open>\<^verbatim>\<open>String.prototype.substring\<close>: both indexes are clamped to the string and swapped if needed.\<close>

definition substring :: "string \<Rightarrow> int \<Rightarrow> int \<Rightarrow> string" where
  "substring d a b =
     (let a' = nat (max 0 (min a (int (length d))));
          b' = nat (max 0 (min b (int (length d))))
      in take (max a' b' - min a' b') (drop (min a' b') d))"

text \<open>
  \<^verbatim>\<open>wrapPortion\<close> returns the document, the new wrapper and the number of siblings it
  inserted behind the text node. Up to \<^verbatim>\<open>surroundContents\<close> nothing changes the
  tree: \<^verbatim>\<open>setStart\<close> and \<^verbatim>\<open>setEnd\<close> throw on an offset outside the text node,
  \<^verbatim>\<open>setEnd\<close> before the start collapses the range to the end point, and a missing
  template or one that is not an element fails at \<^verbatim>\<open>cloneNode\<close> or \<^verbatim>\<open>setAttribute\<close>.
  \<^verbatim>\<open>surroundContents\<close> on a range inside one text node moves the selected data into a
  new text node inside the wrapper (no text node when the range is collapsed), splits the
  text node at the start of the range and puts the wrapper between the two halves; the
  children of the clone are dropped. The empty second half is then removed. The portion's
  element is a text node below the host; for any other reference the model fails without
  changing the tree.
\<close>

definition wrapPortion ::
  "node \<Rightarrow> Portion \<Rightarrow> node option \<Rightarrow> string option \<Rightarrow> string + (node \<times> path \<times> nat)" where
  "wrapPortion doc portion stencilElement ttl =
     (case nodeAt doc (element portion) of
        Some (Text d) \<Rightarrow>
          (let s = portion_offset portion;
               e = portion_offset portion + portion_length portion
           in if element portion = [] then Inl ''HierarchyRequestError''
              else if s < 0 \<or> int (length d) < s then Inl ''IndexSizeError''
              else if e < 0 \<or> int (length d) < e then Inl ''IndexSizeError''
              else (case stencilElement of
                      Some (Elem tg atts cs) \<Rightarrow>
                        (let atts1 = setAttribute ''data-word-id'' (wordId portion) atts;
                             atts2 = (case ttl of
                                        Some t \<Rightarrow> if t \<noteq> [] then setAttribute ''title'' t atts1 else atts1
                                      | None \<Rightarrow> atts1);
                             rstart = nat (min s e);
                             rend = nat e;
                             contents = (if rstart = rend then []
                                         else [Text (take (rend - rstart) (drop rstart d))]);
                             wrapper = Elem tg atts2 contents;
                             rest = drop rend d;
                             inserted = (if rest = [] then [wrapper] else [wrapper, Text rest])
                         in Inr (replaceAt (element portion) (\<lambda>x. Text (take rstart d) # inserted) doc,
                                 butlast (element portion) @ [Suc (last (element portion))],
                                 length inserted))
                    | _ \<Rightarrow> Inl ''TypeError''))
      | _ \<Rightarrow> Inl ''TypeError'')"

text \<open>
  \<^verbatim>\<open>wrapMatch\<close>: \<^verbatim>\<open>portions.map(...)\<close> wraps the portions in order and \<^verbatim>\<open>pop()\<close>
  returns the last wrapper. An exception leaves the tree as the portions wrapped so far
  have made it.
\<close>

fun wrapMatch_loop ::
  "node \<Rightarrow> Portion list \<Rightarrow> node option \<Rightarrow> string option \<Rightarrow> path option
     \<Rightarrow> (string \<times> node) + (node \<times> path option)" where
  "wrapMatch_loop doc [] stencilElement ttl lastNode = Inr (doc, lastNode)"
| "wrapMatch_loop doc (p # ps) stencilElement ttl lastNode =
     (case wrapPortion doc p stencilElement ttl of
        Inl e \<Rightarrow> Inl (e, doc)
      | Inr (doc', wrapper, k) \<Rightarrow>
          wrapMatch_loop doc'
            (map (\<lambda>q. q\<lparr>element := movedByInsert (element p) k (element q)\<rparr>) ps)
            stencilElement ttl (Some wrapper))"

definition wrapMatch ::
  "node \<Rightarrow> Portion list \<Rightarrow> node option \<Rightarrow> string option \<Rightarrow> (string \<times> node) + (node \<times> path option)" where
  "wrapMatch doc ps stencilElement ttl = wrapMatch_loop doc ps stencilElement ttl None"

subsection \<open>\<^verbatim>\<open>highlightMatches\<close>\<close>

text \<open>\<^verbatim>\<open>currentMatch.id || currentMatch.startIndex\<close>, as the string written to \<^verbatim>\<open>data-word-id\<close>.\<close>

definition wordIdOf :: "platform \<Rightarrow> Match \<Rightarrow> string" where
  "wordIdOf js m =
     (case match_id m of
        Some i \<Rightarrow> if i \<noteq> [] then i else numberToString js (startIndex m)
      | None \<Rightarrow> numberToString js (startIndex m))"

record Highlighting =
  tree :: node
  iterator :: NodeIterator
  currentMatchIndex :: nat
  totalOffset :: int
  currentMatch :: Match
  portions :: "Portion list"
  wordId_var :: string

datatype outcome = Finished node | Thrown string node


text \<open>
  The body of the \<^verbatim>\<open>while\<close> loop for the node \<open>n\<close> that \<^verbatim>\<open>getNext\<close> has returned; the
  iterator of the state has already moved on.
\<close>

definition highlight_body :: "platform \<Rightarrow> Match list \<Rightarrow> bool \<Rightarrow> path \<Rightarrow> Highlighting \<Rightarrow> (string \<times> node) + Highlighting" where
  "highlight_body js ms countBRs n st =
     (case nodeAt (tree st) n of
        Some (Elem tg atts ks) \<Rightarrow>
          if countBRs \<and> tg = ''BR'' then Inr (st\<lparr>totalOffset := totalOffset st + 1\<rparr>) else Inr st
      | None \<Rightarrow> Inr st
      | Some (Text nodeText) \<Rightarrow>
          if nodeText = [] then Inr st
          else
            (let cm = currentMatch st;
                 nodeEndOffset = totalOffset st + int (length nodeText)
             in if startIndex cm < nodeEndOffset \<and> totalOffset st < endIndex cm
                then
                  (let isFirstPortion = (totalOffset st \<le> startIndex cm);
                       isLast = (endIndex cm \<le> nodeEndOffset);
                       wid = (if isFirstPortion then wordIdOf js cm else wordId_var st);
                       off = (if isFirstPortion then startIndex cm - totalOffset st else 0);
                       len = (if isLast then (endIndex cm - totalOffset st) - off
                              else int (length nodeText) - off);
                       portion = \<lparr>element = n, portion_text = substring nodeText off (off + len),
                                  portion_offset = off, portion_length = len,
                                  isLastPortion = isLast, wordId = wid\<rparr>;
                       ps = portions st @ [portion]
                   in if isLast
                      then (case wrapMatch (tree st) ps (marker cm) (title cm) of
                              Inl err \<Rightarrow> Inl err
                            | Inr (doc', Some lastNode) \<Rightarrow>
                                Inr (st\<lparr>tree := doc',
                                        iterator := replaceCurrent doc' (iterator st) lastNode,
                                        totalOffset := totalOffset st + len + off,
                                        portions := [],
                                        currentMatchIndex := currentMatchIndex st + 1,
                                        currentMatch :=
                                          (if currentMatchIndex st + 1 < length ms
                                           then ms ! (currentMatchIndex st + 1) else cm),
                                        wordId_var := wid\<rparr>)
                            | Inr (doc', None) \<Rightarrow>
                                Inr (st\<lparr>tree := doc', portions := ps, wordId_var := wid,
                                        totalOffset := nodeEndOffset\<rparr>))
                      else Inr (st\<lparr>portions := ps, wordId_var := wid, totalOffset := nodeEndOffset\<rparr>))
                else Inr (st\<lparr>totalOffset := nodeEndOffset\<rparr>)))"

text \<open>
  Why the loop stops: a pass that wraps a match uses up that match, and every other
  pass leaves the tree alone and moves the walker forward. \<open>wrapsLeft\<close> bounds the
  passes that can still wrap.
\<close>

definition wrapsLeft :: "Match list \<Rightarrow> Highlighting \<Rightarrow> nat" where
  "wrapsLeft ms st =
     (if totalOffset st < endIndex (currentMatch st)
      then Suc (length ms - currentMatchIndex st)
      else length ms - currentMatchIndex st)"

lemma wrapMatch_loop_last:
  "wrapMatch_loop doc ps stencil ttl lastNode = Inr (doc', r) \<Longrightarrow> ps \<noteq> [] \<or> lastNode \<noteq> None \<Longrightarrow>
   r \<noteq> None"
proof (induction doc ps stencil ttl lastNode rule: wrapMatch_loop.induct)
  case (1 doc stencil ttl lastNode)
  then show ?case by simp
next
  case (2 doc p ps stencil ttl lastNode)
  then show ?case by (auto split: sum.splits prod.splits)
qed

lemma highlight_body_progress:
  assumes "highlight_body js ms br n st = Inr st'"
  shows "wrapsLeft ms st' < wrapsLeft ms st
       \<or> (wrapsLeft ms st' \<le> wrapsLeft ms st \<and> tree st' = tree st \<and> iterator st' = iterator st)"
proof (cases "nodeAt (tree st) n")
  case None
  with assms show ?thesis by (simp add: highlight_body_def)
next
  case (Some x)
  show ?thesis
  proof (cases x)
    case (Elem tg atts ks)
    with Some assms show ?thesis
      by (auto simp: highlight_body_def wrapsLeft_def split: if_splits)
  next
    case (Text d)
    show ?thesis
    proof (cases "d \<noteq> [] \<and> startIndex (currentMatch st) < totalOffset st + int (length d)
        \<and> totalOffset st < endIndex (currentMatch st)
        \<and> endIndex (currentMatch st) \<le> totalOffset st + int (length d)")
      case False
      with Some Text assms show ?thesis
        by (auto simp: highlight_body_def wrapsLeft_def Let_def split: if_splits)
    next
      case True
      let ?cm = "currentMatch st"
      let ?off = "if totalOffset st \<le> startIndex ?cm then startIndex ?cm - totalOffset st else 0"
      let ?len = "(endIndex ?cm - totalOffset st) - ?off"
      let ?wid = "if totalOffset st \<le> startIndex ?cm then wordIdOf js ?cm else wordId_var st"
      let ?ps = "portions st @ [\<lparr>element = n, portion_text = substring d ?off (?off + ?len),
                                  portion_offset = ?off, portion_length = ?len,
                                  isLastPortion = True, wordId = ?wid\<rparr>]"
      from True Some Text assms obtain doc' r where
        w: "wrapMatch (tree st) ?ps (marker ?cm) (title ?cm) = Inr (doc', r)"
        by (auto simp: highlight_body_def Let_def split: sum.splits prod.splits)
      from wrapMatch_loop_last [OF w [unfolded wrapMatch_def]] obtain lastNode where r: "r = Some lastNode"
        by auto
      from True Some Text assms w r have
        st': "st' = st\<lparr>tree := doc',
                        iterator := replaceCurrent doc' (iterator st) lastNode,
                        totalOffset := totalOffset st + ?len + ?off,
                        portions := [],
                        currentMatchIndex := currentMatchIndex st + 1,
                        currentMatch :=
                          (if currentMatchIndex st + 1 < length ms
                           then ms ! (currentMatchIndex st + 1) else ?cm),
                        wordId_var := ?wid\<rparr>"
        by (simp add: highlight_body_def Let_def)
      have "wrapsLeft ms st' < wrapsLeft ms st"
        using True unfolding st' wrapsLeft_def by auto
      then show ?thesis ..
    qed
  qed
qed

function highlight_loop :: "platform \<Rightarrow> Match list \<Rightarrow> bool \<Rightarrow> Highlighting \<Rightarrow> outcome" where
  "highlight_loop js ms countBRs st =
     (case getNext (tree st) (iterator st) of
        (None, it') \<Rightarrow> Finished (tree st)
      | (Some n, it') \<Rightarrow>
          (case highlight_body js ms countBRs n (st\<lparr>iterator := it'\<rparr>) of
             Inl (err, doc') \<Rightarrow> Thrown err doc'
           | Inr st' \<Rightarrow> highlight_loop js ms countBRs st'))"
  by pat_completeness auto
termination
proof (relation "measures [\<lambda>(js, ms, br, st). wrapsLeft ms st,
                           \<lambda>(js, ms, br, st). remaining (tree st) (iterator st)]", goal_cases)
  case 1
  show ?case by simp
next
  case (2 js ms br st x it' n st')
  from 2 have g: "getNext (tree st) (iterator st) = (Some n, it')" by simp
  from 2 have b: "highlight_body js ms br n (st\<lparr>iterator := it'\<rparr>) = Inr st'" by simp
  from getNext_progress [OF g] have lt: "remaining (tree st) it' < remaining (tree st) (iterator st)" .
  have wl: "wrapsLeft ms (st\<lparr>iterator := it'\<rparr>) = wrapsLeft ms st" by (simp add: wrapsLeft_def)
  from highlight_body_progress [OF b] wl lt show ?case by auto
qed

declare highlight_loop.simps [simp del]

definition highlightMatches :: "platform \<Rightarrow> node \<Rightarrow> Match list \<Rightarrow> bool \<Rightarrow> outcome" where
  "highlightMatches js elt ms countBRs =
     (if ms = [] then Finished elt
      else highlight_loop js ms countBRs
             \<lparr>tree = normalize elt, iterator = newNodeIterator [], currentMatchIndex = 0,
              totalOffset = 0, currentMatch = ms ! 0, portions = [],
              wordId_var = wordIdOf js (ms ! 0)\<rparr>)"

subsection \<open>The text that survives the removal of highlights\<close>


















subsection \<open>Removing a highlight\<close>





























subsection \<open>The round trip\<close>








text \<open>
  A platform for the examples. It throws a \<^verbatim>\<open>SyntaxError\<close> for every selector it is asked
  about and has the empty string for every number it is asked about. The matches of the
  examples carry their ids, so the numbers are never asked for, and the only selector
  asked about is the one of \<open>removeHighlight_quoted_id\<close>, which every engine refuses.
\<close>

definition refusing :: platform where
  "refusing = \<lparr>querySelectorAll = (\<lambda>host selector. Inl ''SyntaxError''), numberString = (\<lambda>n. [])\<rparr>"



text \<open>
  Why the ids are required to be plain. With the id \<^verbatim>\<open>a"b\<close> and a \<^verbatim>\<open>BR\<close> as the marker,
  \<^verbatim>\<open>highlightMatches\<close> wraps \<^verbatim>\<open>abc\<close> and the extracted text gains a newline. The selector
  of \<^verbatim>\<open>removeHighlight\<close> is then \<^verbatim>\<open>[data-word-id="a"b"]\<close>, the call throws and the wrapper
  stays.
\<close>

lemma removeHighlight_quoted_id:
  "highlightMatches js (Elem ''DIV'' [] [Text ''abc''])
     [\<lparr>startIndex = 0, endIndex = 3, marker = Some (Elem ''BR'' [] []),
       match_id = Some (''a'' @ [CHR 0x22] @ ''b''), title = None\<rparr>] True
   = Finished (Elem ''DIV'' [] [Text [], Elem ''BR'' [(''data-word-id'', ''a'' @ [CHR 0x22] @ ''b'')] [Text ''abc'']])
   \<and> extractText (Elem ''DIV'' [] [Text [], Elem ''BR'' [(''data-word-id'', ''a'' @ [CHR 0x22] @ ''b'')] [Text ''abc'']]) [] True
      = [CHR 0x0A] @ ''abc''
   \<and> wordIdSelector (''a'' @ [CHR 0x22] @ ''b'') = ''[data-word-id='' @ [CHR 0x22] @ ''a'' @ [CHR 0x22] @ ''b'' @ [CHR 0x22] @ '']''
   \<and> removeHighlight refusing
        (Elem ''DIV'' [] [Text [], Elem ''BR'' [(''data-word-id'', ''a'' @ [CHR 0x22] @ ''b'')] [Text ''abc'']]) (''a'' @ [CHR 0x22] @ ''b'')
      = Inl ''SyntaxError''"
  by code_simp




end
